theory Spec2Isabelle
  imports Main
begin

section \<open>Blocks, metadata and bundles\<close>

text \<open>
  The exceptions the two modules can raise. \<open>RuntimeFailure\<close> stands for any other
  exception a collaborator raises (identified by a tag).
\<close>

datatype error =
    AssertionError
  | IndexError
  | ValueError
  | AttributeError
  | StopIteration
  | ObjectLostError
  | RuntimeFailure nat

text \<open>
  A block is a chunk of rows; the operators only hold handles (\<open>ObjectRef[Block]\<close>) to
  blocks that live in the object store. The store is a list of blocks, the handle
  \<open>i\<close> denotes entry \<open>i\<close>, and a task that returns a block appends it, so that the
  handle it returns is fresh.
\<close>

type_synonym object_ref = nat

type_synonym 'r block = "'r list"

type_synonym 'r object_store = "'r block list"

definition ray_get :: "'r object_store \<Rightarrow> object_ref \<Rightarrow> 'r block option" where
  "ray_get st r = (if r < length st then Some (st ! r) else None)"

definition ray_put :: "'r object_store \<Rightarrow> 'r block \<Rightarrow> object_ref \<times> 'r object_store" where
  "ray_put st b = (length st, st @ [b])"

text \<open>
  \<open>BlockMetadata\<close>: the fields the operators read and write. \<open>num_rows\<close> and
  \<open>size_bytes\<close> are optional in the source (\<open>assert num_rows is not None\<close>).
\<close>

record block_metadata =
  num_rows :: "int option"
  size_bytes :: "int option"
  schema :: string

record ref_bundle =
  blocks :: "(object_ref \<times> block_metadata) list"
  owns_blocks :: bool

section \<open>The limit operator\<close>

text \<open>
  The fields of \<open>LimitOperator\<close>, together with the object store its remote slice
  task writes to. \<open>num_outputs_total_field\<close> is the attribute \<open>_num_outputs_total\<close>.
\<close>

record 'r limit_operator =
  limit :: int
  consumed_rows :: int
  buffer :: "ref_bundle list"
  output_metadata :: "block_metadata list"
  num_outputs_total_field :: "int option"
  object_store :: "'r object_store"

text \<open>
  \<open>__init__\<close>: \<open>upstream\<close> is what \<open>input_op.num_outputs_total()\<close> returned.
\<close>

definition LimitOperator_init ::
  "int \<Rightarrow> int option \<Rightarrow> 'r object_store \<Rightarrow> 'r limit_operator" where
  "LimitOperator_init lim upstream st =
     \<lparr> limit = lim,
       consumed_rows = 0,
       buffer = [],
       output_metadata = [],
       num_outputs_total_field =
         (case upstream of None \<Rightarrow> None | Some u \<Rightarrow> Some (min u lim)),
       object_store = st \<rparr>"

definition limit_reached :: "'r limit_operator \<Rightarrow> bool" where
  "limit_reached s = (consumed_rows s \<ge> limit s)"

text \<open>
  \<open>slice_fn\<close>, the body of the remote task: \<open>slice(0, num_rows, copy=True)\<close> keeps the
  first \<open>num_rows\<close> rows, the metadata is copied and its \<open>num_rows\<close> and \<open>size_bytes\<close>
  are set. \<open>sz\<close> is \<open>BlockAccessor.size_bytes\<close>, a function of the block.
\<close>

definition slice_fn ::
  "('r block \<Rightarrow> int) \<Rightarrow> 'r block \<Rightarrow> block_metadata \<Rightarrow> int \<Rightarrow> 'r block \<times> block_metadata" where
  "slice_fn sz block metadata n =
     (let block' = take (nat n) block
      in (block', metadata\<lparr>num_rows := Some n, size_bytes := Some (sz block')\<rparr>))"

text \<open>
  The \<open>for\<close> loop of \<open>add_input\<close> over \<open>refs.blocks\<close>, with the two local lists
  \<open>out_blocks\<close> and \<open>out_metadata\<close>. The \<open>else\<close> branch ends the loop (\<open>break\<close>); it
  leaves \<open>consumed_rows\<close> as it is. The remote task reads the block behind the handle
  and its result is a new object.
\<close>

fun add_input_loop ::
  "('r block \<Rightarrow> int) \<Rightarrow> (object_ref \<times> block_metadata) list \<Rightarrow> 'r limit_operator \<Rightarrow>
   object_ref list \<Rightarrow> block_metadata list \<Rightarrow>
   error + ('r limit_operator \<times> object_ref list \<times> block_metadata list)" where
  "add_input_loop sz [] s out_blocks out_metadata = Inr (s, out_blocks, out_metadata)"
| "add_input_loop sz ((block, metadata) # rest) s out_blocks out_metadata =
     (case num_rows metadata of
        None \<Rightarrow> Inl AssertionError
      | Some n \<Rightarrow>
          if consumed_rows s + n \<le> limit s then
            add_input_loop sz rest
              (s\<lparr>consumed_rows := consumed_rows s + n,
                 output_metadata := output_metadata s @ [metadata]\<rparr>)
              (out_blocks @ [block]) (out_metadata @ [metadata])
          else
            (case ray_get (object_store s) block of
               None \<Rightarrow> Inl ObjectLostError
             | Some b \<Rightarrow>
                 (let (b', metadata') = slice_fn sz b metadata (limit s - consumed_rows s);
                      (block', st') = ray_put (object_store s) b'
                  in Inr (s\<lparr>output_metadata := output_metadata s @ [metadata'],
                             object_store := st'\<rparr>,
                          out_blocks @ [block'], out_metadata @ [metadata']))))"

text \<open>
  \<open>add_input\<close>. An exception ends the run, so the model keeps no operator after it.
  \<open>assert not self.completed()\<close> is a check of the base class on the caller; the model
  is of the calls made while the operator is not completed.
\<close>

definition add_input ::
  "('r block \<Rightarrow> int) \<Rightarrow> 'r limit_operator \<Rightarrow> ref_bundle \<Rightarrow> int \<Rightarrow> error + 'r limit_operator" where
  "add_input sz s refs input_index =
     (if input_index \<noteq> 0 then Inl AssertionError
      else if limit_reached s then Inr s
      else
        (case add_input_loop sz (blocks refs) s [] [] of
           Inl e \<Rightarrow> Inl e
         | Inr (s', out_blocks, out_metadata) \<Rightarrow>
             Inr (s'\<lparr>buffer := buffer s' @
                       [\<lparr>blocks = zip out_blocks out_metadata,
                         owns_blocks = owns_blocks refs\<rparr>]\<rparr>)))"

definition has_next :: "'r limit_operator \<Rightarrow> bool" where
  "has_next s = (length (buffer s) > 0)"

text \<open>\<open>get_next\<close>: \<open>popleft\<close> of an empty deque raises \<open>IndexError\<close>.\<close>

definition get_next :: "'r limit_operator \<Rightarrow> error + (ref_bundle \<times> 'r limit_operator)" where
  "get_next s =
     (case buffer s of
        [] \<Rightarrow> Inl IndexError
      | b # bs \<Rightarrow> Inr (b, s\<lparr>buffer := bs\<rparr>))"

definition get_stats :: "'r limit_operator \<Rightarrow> block_metadata list" where
  "get_stats s = output_metadata s"

definition num_outputs_total :: "'r limit_operator \<Rightarrow> int option" where
  "num_outputs_total s =
     (if limit_reached s then Some (limit s) else num_outputs_total_field s)"

text \<open>A run: the bundles of a list are added one after the other, on input 0.\<close>

fun add_inputs ::
  "('r block \<Rightarrow> int) \<Rightarrow> 'r limit_operator \<Rightarrow> ref_bundle list \<Rightarrow> error + 'r limit_operator" where
  "add_inputs sz s [] = Inr s"
| "add_inputs sz s (refs # rest) =
     (case add_input sz s refs 0 of
        Inl e \<Rightarrow> Inl e
      | Inr s' \<Rightarrow> add_inputs sz s' rest)"

text \<open>
  What a run has forwarded: the pairs of all output bundles, in order, and the sum of
  their \<open>num_rows\<close>.
\<close>

definition forwarded :: "'r limit_operator \<Rightarrow> (object_ref \<times> block_metadata) list" where
  "forwarded s = concat (map blocks (buffer s))"

definition rows_of :: "block_metadata \<Rightarrow> int" where
  "rows_of m = (case num_rows m of None \<Rightarrow> 0 | Some n \<Rightarrow> n)"

definition forwarded_rows :: "'r limit_operator \<Rightarrow> int" where
  "forwarded_rows s = sum_list (map (\<lambda>(b, m). rows_of m) (forwarded s))"

definition total_input_rows :: "ref_bundle list \<Rightarrow> int" where
  "total_input_rows bs = sum_list (map (\<lambda>(b, m). rows_of m) (concat (map blocks bs)))"

text \<open>
  The forwarded pairs whose handle is not a handle of the store the run started from:
  these are the blocks the slice task made. Every other forwarded handle is an
  incoming one.
\<close>

definition sliced_copies ::
  "'r object_store \<Rightarrow> 'r limit_operator \<Rightarrow> (object_ref \<times> block_metadata) list" where
  "sliced_copies st0 s = filter (\<lambda>(b, m). \<not> b < length st0) (forwarded s)"

text \<open>The preconditions of \<open>add_input\<close> on a bundle.\<close>

definition rows_known :: "ref_bundle \<Rightarrow> bool" where
  "rows_known refs = list_all (\<lambda>(b, m). num_rows m \<noteq> None) (blocks refs)"

definition handles_valid :: "'r object_store \<Rightarrow> ref_bundle \<Rightarrow> bool" where
  "handles_valid st refs = list_all (\<lambda>(b, m). b < length st) (blocks refs)"

text \<open>\<open>drain k\<close>: \<open>k\<close> calls of \<open>get_next\<close>, the bundles dropped.\<close>

fun drain :: "nat \<Rightarrow> 'r limit_operator \<Rightarrow> error + 'r limit_operator" where
  "drain 0 s = Inr s"
| "drain (Suc k) s = (case get_next s of Inl e \<Rightarrow> Inl e | Inr (b, s') \<Rightarrow> drain k s')"

subsection \<open>Example inputs\<close>

text \<open>
  Four blocks of three rows each, their metadata, and bundles of one block. A row is a
  number; a block takes eight bytes a row.
\<close>

definition example_store :: "nat object_store" where
  "example_store = [[1, 2, 3], [4, 5, 6], [7, 8, 9], [10, 11, 12]]"

definition example_size_bytes :: "nat block \<Rightarrow> int" where
  "example_size_bytes b = 8 * int (length b)"

definition three_rows :: block_metadata where
  "three_rows = \<lparr>num_rows = Some 3, size_bytes = Some 24, schema = ''int64''\<rparr>"

definition single_block :: "object_ref \<Rightarrow> ref_bundle" where
  "single_block r = \<lparr>blocks = [(r, three_rows)], owns_blocks = True\<rparr>"

definition three_blocks :: ref_bundle where
  "three_blocks = \<lparr>blocks = [(0, three_rows), (1, three_rows), (2, three_rows)], owns_blocks = True\<rparr>"

definition empty_bundle :: ref_bundle where
  "empty_bundle = \<lparr>blocks = [], owns_blocks = False\<rparr>"

section \<open>The split coordinator\<close>

text \<open>
  The pipeline runner of an epoch is a collaborator: \<open>'it\<close> is its state, and its pull
  \<open>get_next(output_split_idx)\<close> is a function that returns the bundle or the exception
  raised (\<open>StopIteration\<close> when the index is exhausted) and the runner afterwards.
\<close>

type_synonym 'it puller = "'it \<Rightarrow> int \<Rightarrow> (error + ref_bundle) \<times> 'it"

text \<open>
  The coordinator's fields. \<open>coord_n\<close> is \<open>_n\<close>; \<open>next_epoch\<close> is the position of the
  generator \<open>_next_epoch\<close>, the number of runners it has made.
\<close>

record 'it split_coordinator =
  coord_n :: int
  next_bundle :: "int \<Rightarrow> ref_bundle option"
  unfinished_clients_in_epoch :: int
  cur_epoch :: int
  next_epoch :: nat
  output_iterator :: "'it option"

definition SplitCoordinator_init :: "int \<Rightarrow> 'it split_coordinator" where
  "SplitCoordinator_init n =
     \<lparr> coord_n = n,
       next_bundle = Map.empty,
       unfinished_clients_in_epoch = n,
       cur_epoch = - 1,
       next_epoch = 0,
       output_iterator = None \<rparr>"

text \<open>
  The second half of \<open>get\<close>, from \<open>next_bundle.blocks.pop()\<close> on: \<open>pop\<close> takes the last
  pair of the list (and raises \<open>IndexError\<close> on an empty one), the bundle is stored at
  the index, and the entry is deleted when no block is left.
\<close>

definition get_pop ::
  "'it split_coordinator \<Rightarrow> int \<Rightarrow> ref_bundle \<Rightarrow>
   (error + object_ref option) \<times> 'it split_coordinator" where
  "get_pop s output_split_idx nb =
     (if blocks nb = [] then (Inl IndexError, s)
      else
        (let block = fst (last (blocks nb));
             nb' = nb\<lparr>blocks := butlast (blocks nb)\<rparr>;
             m = (next_bundle s)(output_split_idx \<mapsto> nb');
             m' = (if blocks nb' = [] then m(output_split_idx := None) else m)
         in (Inr (Some block), s\<lparr>next_bundle := m'\<rparr>)))"

text \<open>
  \<open>get\<close>: the result is the exception raised or the returned value (\<open>None\<close> or a block
  handle), and the coordinator after the call. Before any epoch has started
  \<open>_output_iterator\<close> is \<open>None\<close>, and the pull raises \<open>AttributeError\<close>. Of the
  exceptions of the \<open>try\<close> block only \<open>StopIteration\<close> is caught.
\<close>

definition get ::
  "'it puller \<Rightarrow> 'it split_coordinator \<Rightarrow> int \<Rightarrow> int \<Rightarrow>
   (error + object_ref option) \<times> 'it split_coordinator" where
  "get pull s epoch_id output_split_idx =
     (if epoch_id \<noteq> cur_epoch s then (Inl ValueError, s)
      else
        (case next_bundle s output_split_idx of
           Some nb \<Rightarrow> get_pop s output_split_idx nb
         | None \<Rightarrow>
             (case output_iterator s of
                None \<Rightarrow> (Inl AttributeError, s)
              | Some it \<Rightarrow>
                  (case pull it output_split_idx of
                     (Inl e, it') \<Rightarrow>
                       (if e = StopIteration then Inr None else Inl e,
                        s\<lparr>output_iterator := Some it'\<rparr>)
                   | (Inr nb, it') \<Rightarrow>
                       get_pop (s\<lparr>output_iterator := Some it'\<rparr>) output_split_idx nb))))"

subsection \<open>An example runner\<close>

text \<open>
  A runner that holds, for each index, the list of what its pulls give, one after the
  other; at the end of the list the index is exhausted.
\<close>

type_synonym list_runner = "int \<Rightarrow> (error + ref_bundle) list"

definition list_pull :: "list_runner puller" where
  "list_pull it idx =
     (case it idx of
        [] \<Rightarrow> (Inl StopIteration, it)
      | r # rs \<Rightarrow> (r, it(idx := rs)))"

definition two_blocks :: ref_bundle where
  "two_blocks = \<lparr>blocks = [(0, three_rows), (1, three_rows)], owns_blocks = True\<rparr>"

definition stale_coordinator :: "list_runner split_coordinator" where
  "stale_coordinator =
     \<lparr> coord_n = 2,
       next_bundle = Map.empty(0 \<mapsto> two_blocks),
       unfinished_clients_in_epoch = 2,
       cur_epoch = 1,
       next_epoch = 2,
       output_iterator = Some (\<lambda>idx. []) \<rparr>"

definition failing_coordinator :: "list_runner split_coordinator" where
  "failing_coordinator =
     \<lparr> coord_n = 2,
       next_bundle = Map.empty(1 \<mapsto> two_blocks),
       unfinished_clients_in_epoch = 2,
       cur_epoch = 0,
       next_epoch = 1,
       output_iterator = Some ((\<lambda>idx. [])(0 := [Inl (RuntimeFailure 7)])) \<rparr>"

definition one_block :: ref_bundle where
  "one_block = \<lparr>blocks = [(0, three_rows)], owns_blocks = True\<rparr>"

text \<open>
  The bundle a \<open>get\<close> call works on: the leftover at the index when there is one, what
  the runner's pull gives otherwise.
\<close>

definition obtained :: "'it puller \<Rightarrow> 'it split_coordinator \<Rightarrow> int \<Rightarrow> ref_bundle option" where
  "obtained pull s i =
     (case next_bundle s i of
        Some nb \<Rightarrow> Some nb
      | None \<Rightarrow>
          (case output_iterator s of
             None \<Rightarrow> None
           | Some it \<Rightarrow> (case fst (pull it i) of Inl e \<Rightarrow> None | Inr nb \<Rightarrow> Some nb)))"

section \<open>The barrier of the split coordinator\<close>

text \<open>
  \<open>start_epoch\<close> returns what \<open>_barrier\<close> returns. \<open>_barrier\<close> is run by the threads of
  the clients at the same time, so it is modelled by the steps of the threads, one
  statement a step, taken in any order (a schedule is the list of the threads that
  step). The program points of \<open>_barrier\<close>, each named after the statement the thread
  runs next:
  \<^item> \<open>Acquire1\<close>, \<open>ReadEpoch\<close>, \<open>Decrement\<close>, \<open>Release1\<close>: the first \<open>with self._lock\<close>
    block, \<open>starting_epoch = self._cur_epoch\<close> and the decrement of
    \<open>_unfinished_clients_in_epoch\<close>;
  \<^item> \<open>TestEpoch\<close>, \<open>TestCounter\<close>, \<open>Sleep\<close>: the two reads of the \<open>while\<close> condition
    (\<open>and\<close> reads the counter only when the epoch is still the starting one) and
    \<open>time.sleep\<close>; the warning of a blocked client changes no state;
  \<^item> \<open>Acquire2\<close>, \<open>TestAdvance\<close>, \<open>IncEpoch\<close>, \<open>ResetCounter\<close>, \<open>BuildIterator\<close>,
    \<open>Release2\<close>: the second \<open>with self._lock\<close> block;
  \<^item> \<open>AssertIterator\<close>: the \<open>assert\<close> and the \<open>return\<close>;
  \<^item> \<open>Done r\<close>: the call has returned \<open>r\<close> or raised.
\<close>

datatype barrier_pc =
    Acquire1 | ReadEpoch | Decrement | Release1
  | TestEpoch | TestCounter | Sleep
  | Acquire2 | TestAdvance | IncEpoch | ResetCounter | BuildIterator | Release2
  | AssertIterator
  | Done "error + int"

text \<open>
  A thread: its program point, its local \<open>starting_epoch\<close>, and whether it has run the
  statement that makes the runner of the new epoch (\<open>next(self._next_epoch)\<close>).
\<close>

record barrier_thread =
  pc :: barrier_pc
  starting_epoch :: int
  built :: bool

text \<open>
  The coordinator, the thread that holds \<open>_lock\<close>, and the threads. The calls of
  \<open>_barrier\<close> do not nest, so the reentrant lock acts as a plain one.
\<close>

record 'it barrier_state =
  coordinator :: "'it split_coordinator"
  lock_owner :: "nat option"
  threads :: "barrier_thread list"

text \<open>
  One step of thread \<open>i\<close>. A thread that waits for the lock does not move. \<open>gen k\<close> is
  the runner the generator \<open>gen_epochs\<close> yields at its \<open>k\<close>-th \<open>next\<close>.
\<close>

definition barrier_step :: "(nat \<Rightarrow> 'it) \<Rightarrow> 'it barrier_state \<Rightarrow> nat \<Rightarrow> 'it barrier_state" where
  "barrier_step gen s i =
     (if \<not> i < length (threads s) then s
      else
        (let t = threads s ! i; c = coordinator s in
         case pc t of
           Acquire1 \<Rightarrow>
             if lock_owner s = None
             then s\<lparr>lock_owner := Some i, threads := (threads s)[i := t\<lparr>pc := ReadEpoch\<rparr>]\<rparr>
             else s
         | ReadEpoch \<Rightarrow>
             s\<lparr>threads := (threads s)[i := t\<lparr>pc := Decrement, starting_epoch := cur_epoch c\<rparr>]\<rparr>
         | Decrement \<Rightarrow>
             s\<lparr>coordinator := c\<lparr>unfinished_clients_in_epoch := unfinished_clients_in_epoch c - 1\<rparr>,
               threads := (threads s)[i := t\<lparr>pc := Release1\<rparr>]\<rparr>
         | Release1 \<Rightarrow>
             s\<lparr>lock_owner := None, threads := (threads s)[i := t\<lparr>pc := TestEpoch\<rparr>]\<rparr>
         | TestEpoch \<Rightarrow>
             s\<lparr>threads := (threads s)[i := t\<lparr>pc :=
                 (if cur_epoch c = starting_epoch t then TestCounter else Acquire2)\<rparr>]\<rparr>
         | TestCounter \<Rightarrow>
             s\<lparr>threads := (threads s)[i := t\<lparr>pc :=
                 (if unfinished_clients_in_epoch c \<noteq> 0 then Sleep else Acquire2)\<rparr>]\<rparr>
         | Sleep \<Rightarrow>
             s\<lparr>threads := (threads s)[i := t\<lparr>pc := TestEpoch\<rparr>]\<rparr>
         | Acquire2 \<Rightarrow>
             if lock_owner s = None
             then s\<lparr>lock_owner := Some i, threads := (threads s)[i := t\<lparr>pc := TestAdvance\<rparr>]\<rparr>
             else s
         | TestAdvance \<Rightarrow>
             s\<lparr>threads := (threads s)[i := t\<lparr>pc :=
                 (if cur_epoch c = starting_epoch t then IncEpoch else Release2)\<rparr>]\<rparr>
         | IncEpoch \<Rightarrow>
             s\<lparr>coordinator := c\<lparr>cur_epoch := cur_epoch c + 1\<rparr>,
               threads := (threads s)[i := t\<lparr>pc := ResetCounter\<rparr>]\<rparr>
         | ResetCounter \<Rightarrow>
             s\<lparr>coordinator := c\<lparr>unfinished_clients_in_epoch := coord_n c\<rparr>,
               threads := (threads s)[i := t\<lparr>pc := BuildIterator\<rparr>]\<rparr>
         | BuildIterator \<Rightarrow>
             s\<lparr>coordinator := c\<lparr>output_iterator := Some (gen (next_epoch c)),
                                  next_epoch := Suc (next_epoch c)\<rparr>,
               threads := (threads s)[i := t\<lparr>pc := Release2, built := True\<rparr>]\<rparr>
         | Release2 \<Rightarrow>
             s\<lparr>lock_owner := None, threads := (threads s)[i := t\<lparr>pc := AssertIterator\<rparr>]\<rparr>
         | AssertIterator \<Rightarrow>
             s\<lparr>threads := (threads s)[i := t\<lparr>pc :=
                 Done (if output_iterator c = None then Inl AssertionError
                       else Inr (starting_epoch t + 1))\<rparr>]\<rparr>
         | Done r \<Rightarrow> s))"

fun run_schedule :: "(nat \<Rightarrow> 'it) \<Rightarrow> 'it barrier_state \<Rightarrow> nat list \<Rightarrow> 'it barrier_state" where
  "run_schedule gen s [] = s"
| "run_schedule gen s (i # sched) = run_schedule gen (barrier_step gen s i) sched"

text \<open>
  All \<open>_n\<close> clients have called \<open>start_epoch\<close> and none has run a statement of
  \<open>_barrier\<close> yet.
\<close>

definition barrier_start :: "'it split_coordinator \<Rightarrow> 'it barrier_state" where
  "barrier_start c =
     \<lparr> coordinator = c, lock_owner = None,
       threads = replicate (nat (coord_n c)) \<lparr>pc = Acquire1, starting_epoch = 0, built = False\<rparr> \<rparr>"

text \<open>
  Program points at which a thread holds the lock, has arrived (has decremented the
  counter), and has left the \<open>while\<close> loop. \<open>arrivals\<close> counts the threads that have
  arrived; a \<open>winner\<close> is a thread that has incremented the epoch.
\<close>

fun holds_lock :: "barrier_pc \<Rightarrow> bool" where
  "holds_lock ReadEpoch = True"
| "holds_lock Decrement = True"
| "holds_lock Release1 = True"
| "holds_lock TestAdvance = True"
| "holds_lock IncEpoch = True"
| "holds_lock ResetCounter = True"
| "holds_lock BuildIterator = True"
| "holds_lock Release2 = True"
| "holds_lock _ = False"

fun arrived :: "barrier_pc \<Rightarrow> bool" where
  "arrived Acquire1 = False"
| "arrived ReadEpoch = False"
| "arrived Decrement = False"
| "arrived _ = True"

fun past_loop :: "barrier_pc \<Rightarrow> bool" where
  "past_loop Acquire1 = False"
| "past_loop ReadEpoch = False"
| "past_loop Decrement = False"
| "past_loop Release1 = False"
| "past_loop TestEpoch = False"
| "past_loop TestCounter = False"
| "past_loop Sleep = False"
| "past_loop _ = True"

definition arrivals :: "barrier_thread list \<Rightarrow> nat" where
  "arrivals ts = length (filter (\<lambda>t. arrived (pc t)) ts)"

definition winner :: "barrier_thread \<Rightarrow> bool" where
  "winner t = (pc t = ResetCounter \<or> pc t = BuildIterator \<or> built t)"

subsection \<open>The invariant of the barrier\<close>

text \<open>
  \<open>e0\<close> is the epoch the clients start from and \<open>k0\<close> the position of the generator
  then. The invariant is the conjunction of the properties below.
\<close>

definition inv_len :: "'it barrier_state \<Rightarrow> bool" where
  "inv_len s = (length (threads s) = nat (coord_n (coordinator s)))"

definition inv_lock :: "'it barrier_state \<Rightarrow> bool" where
  "inv_lock s =
     (\<forall>j < length (threads s). holds_lock (pc (threads s ! j)) \<longleftrightarrow> lock_owner s = Some j)"

definition inv_epoch :: "int \<Rightarrow> 'it barrier_state \<Rightarrow> bool" where
  "inv_epoch e0 s = (cur_epoch (coordinator s) = e0 \<or> cur_epoch (coordinator s) = e0 + 1)"

definition inv_inc :: "int \<Rightarrow> 'it barrier_state \<Rightarrow> bool" where
  "inv_inc e0 s =
     (\<forall>j < length (threads s). pc (threads s ! j) = IncEpoch \<longrightarrow> cur_epoch (coordinator s) = e0)"

definition inv_se :: "int \<Rightarrow> 'it barrier_state \<Rightarrow> bool" where
  "inv_se e0 s =
     (\<forall>j < length (threads s).
        pc (threads s ! j) \<noteq> Acquire1 \<and> pc (threads s ! j) \<noteq> ReadEpoch \<longrightarrow>
        starting_epoch (threads s ! j) = e0)"

definition inv_all :: "int \<Rightarrow> 'it barrier_state \<Rightarrow> bool" where
  "inv_all e0 s =
     (cur_epoch (coordinator s) = e0 + 1 \<longrightarrow>
        (\<forall>j < length (threads s). arrived (pc (threads s ! j))))"

definition inv_past :: "'it barrier_state \<Rightarrow> bool" where
  "inv_past s =
     ((\<exists>j < length (threads s). past_loop (pc (threads s ! j))) \<longrightarrow>
        (\<forall>j < length (threads s). arrived (pc (threads s ! j))))"

definition inv_count :: "int \<Rightarrow> nat \<Rightarrow> 'it barrier_state \<Rightarrow> bool" where
  "inv_count e0 k0 s =
     (cur_epoch (coordinator s) = e0 \<longrightarrow>
        unfinished_clients_in_epoch (coordinator s) =
          coord_n (coordinator s) - int (arrivals (threads s)) \<and>
        next_epoch (coordinator s) = k0)"

definition inv_nowin :: "int \<Rightarrow> 'it barrier_state \<Rightarrow> bool" where
  "inv_nowin e0 s =
     (cur_epoch (coordinator s) = e0 \<longrightarrow>
        (\<forall>j < length (threads s). \<not> winner (threads s ! j)))"

definition inv_uniq :: "'it barrier_state \<Rightarrow> bool" where
  "inv_uniq s =
     (\<forall>j < length (threads s). \<forall>k < length (threads s).
        winner (threads s ! j) \<and> winner (threads s ! k) \<longrightarrow> j = k)"

definition inv_exwin :: "int \<Rightarrow> 'it barrier_state \<Rightarrow> bool" where
  "inv_exwin e0 s =
     (cur_epoch (coordinator s) = e0 + 1 \<longrightarrow>
        (\<exists>j < length (threads s). winner (threads s ! j)))"

definition inv_reset :: "nat \<Rightarrow> 'it barrier_state \<Rightarrow> bool" where
  "inv_reset k0 s =
     (\<forall>j < length (threads s).
        pc (threads s ! j) = ResetCounter \<longrightarrow> next_epoch (coordinator s) = k0)"

definition inv_build :: "nat \<Rightarrow> 'it barrier_state \<Rightarrow> bool" where
  "inv_build k0 s =
     (\<forall>j < length (threads s).
        pc (threads s ! j) = BuildIterator \<longrightarrow>
        next_epoch (coordinator s) = k0 \<and>
        unfinished_clients_in_epoch (coordinator s) = coord_n (coordinator s))"

text \<open>Program points after the statements of the branch that advances the epoch.\<close>

fun after_build :: "barrier_pc \<Rightarrow> bool" where
  "after_build Release2 = True"
| "after_build AssertIterator = True"
| "after_build (Done r) = True"
| "after_build _ = False"

definition inv_builtpc :: "'it barrier_state \<Rightarrow> bool" where
  "inv_builtpc s =
     (\<forall>j < length (threads s). built (threads s ! j) \<longrightarrow> after_build (pc (threads s ! j)))"

definition inv_builtco :: "nat \<Rightarrow> 'it barrier_state \<Rightarrow> bool" where
  "inv_builtco k0 s =
     ((\<exists>j < length (threads s). built (threads s ! j)) \<longrightarrow>
        output_iterator (coordinator s) \<noteq> None \<and>
        next_epoch (coordinator s) = Suc k0 \<and>
        unfinished_clients_in_epoch (coordinator s) = coord_n (coordinator s))"

definition inv_iter :: "'it barrier_state \<Rightarrow> bool" where
  "inv_iter s =
     (\<forall>j < length (threads s).
        pc (threads s ! j) = Release2 \<or> pc (threads s ! j) = AssertIterator \<longrightarrow>
        output_iterator (coordinator s) \<noteq> None)"

definition inv_done :: "int \<Rightarrow> 'it barrier_state \<Rightarrow> bool" where
  "inv_done e0 s =
     (\<forall>j < length (threads s). \<forall>r.
        pc (threads s ! j) = Done r \<longrightarrow> r = Inr (e0 + 1))"

definition barrier_inv :: "int \<Rightarrow> nat \<Rightarrow> 'it barrier_state \<Rightarrow> bool" where
  "barrier_inv e0 k0 s =
     (inv_len s \<and> inv_lock s \<and> inv_epoch e0 s \<and> inv_inc e0 s \<and> inv_se e0 s \<and>
      inv_all e0 s \<and> inv_past s \<and> inv_count e0 k0 s \<and> inv_nowin e0 s \<and> inv_uniq s \<and>
      inv_exwin e0 s \<and> inv_reset k0 s \<and> inv_build k0 s \<and> inv_builtpc s \<and>
      inv_builtco k0 s \<and> inv_iter s \<and> inv_done e0 s)"

text \<open>
  Two more invariants: a thread past the second block has seen the epoch advanced, and
  the lock is held by one of the threads.
\<close>

definition inv_adv :: "int \<Rightarrow> 'it barrier_state \<Rightarrow> bool" where
  "inv_adv e0 s =
     (\<forall>j < length (threads s).
        after_build (pc (threads s ! j)) \<longrightarrow> cur_epoch (coordinator s) = e0 + 1)"

definition inv_owner :: "'it barrier_state \<Rightarrow> bool" where
  "inv_owner s = (\<forall>j. lock_owner s = Some j \<longrightarrow> j < length (threads s))"

text \<open>
  A measure of the statements a thread has yet to run; one turn of the \<open>while\<close> loop
  leads back to \<open>TestCounter\<close>.
\<close>

fun rank_pc :: "barrier_pc \<Rightarrow> nat" where
  "rank_pc Acquire1 = 14"
| "rank_pc ReadEpoch = 13"
| "rank_pc Decrement = 12"
| "rank_pc Release1 = 11"
| "rank_pc Sleep = 10"
| "rank_pc TestEpoch = 9"
| "rank_pc TestCounter = 8"
| "rank_pc Acquire2 = 7"
| "rank_pc TestAdvance = 6"
| "rank_pc IncEpoch = 5"
| "rank_pc ResetCounter = 4"
| "rank_pc BuildIterator = 3"
| "rank_pc Release2 = 2"
| "rank_pc AssertIterator = 1"
| "rank_pc (Done r) = 0"

definition rank :: "'it barrier_state \<Rightarrow> nat" where
  "rank s = sum_list (map (\<lambda>t. rank_pc (pc t)) (threads s))"

text \<open>Two clients, the first to arrive also the first to leave the loop.\<close>

definition two_client_schedule :: "nat list" where
  "two_client_schedule =
     [0, 0, 0, 0, 1, 1, 1, 1, 0, 0, 0, 0, 0, 0, 0, 0, 0, 1, 1, 1, 1, 1]"

section \<open>Properties of the limit operator\<close>

lemma add_input_loop_fields:
  "add_input_loop sz bs s ob om = Inr (s', ob', om') \<Longrightarrow>
     limit s' = limit s \<and> num_outputs_total_field s' = num_outputs_total_field s \<and>
     buffer s' = buffer s"
proof (induction bs arbitrary: s ob om)
  case Nil
  then show ?case by simp
next
  case (Cons p bs)
  obtain block metadata where p: "p = (block, metadata)" by (cases p)
  from Cons.prems p show ?case
    by (auto simp: ray_put_def slice_fn_def Let_def split: option.splits if_splits prod.splits
             dest!: Cons.IH)
qed

lemma add_input_fields:
  "add_input sz s refs i = Inr s' \<Longrightarrow>
     limit s' = limit s \<and> num_outputs_total_field s' = num_outputs_total_field s"
  by (auto simp: add_input_def split: if_splits sum.splits dest!: add_input_loop_fields)

lemma add_inputs_fields:
  "add_inputs sz s bs = Inr s' \<Longrightarrow>
     limit s' = limit s \<and> num_outputs_total_field s' = num_outputs_total_field s"
proof (induction bs arbitrary: s)
  case Nil
  then show ?case by simp
next
  case (Cons b bs)
  then show ?case
    by (auto split: sum.splits dest!: add_input_fields)
qed

lemma add_input_loop_returns:
  "list_all (\<lambda>(b, m). num_rows m \<noteq> None) bs \<Longrightarrow>
   list_all (\<lambda>(b, m). b < length (object_store s)) bs \<Longrightarrow>
   \<exists>r. add_input_loop sz bs s ob om = Inr r"
proof (induction bs arbitrary: s ob om)
  case Nil
  then show ?case by simp
next
  case (Cons p bs)
  obtain block metadata where p: "p = (block, metadata)" by (cases p)
  from Cons.prems p obtain n where n: "num_rows metadata = Some n" by auto
  show ?case
  proof (cases "consumed_rows s + n \<le> limit s")
    case True
    let ?s = "s\<lparr>consumed_rows := consumed_rows s + n,
                 output_metadata := output_metadata s @ [metadata]\<rparr>"
    from Cons.prems p have "list_all (\<lambda>(b, m). num_rows m \<noteq> None) bs"
      and "list_all (\<lambda>(b, m). b < length (object_store ?s)) bs" by auto
    from Cons.IH [OF this] True n p show ?thesis by simp
  next
    case False
    from Cons.prems p have "block < length (object_store s)" by simp
    with False n p show ?thesis
      by (simp add: ray_get_def ray_put_def slice_fn_def Let_def)
  qed
qed

lemma drain_prefix:
  "buffer s = xs @ ys \<Longrightarrow> drain (length xs) s = Inr (s\<lparr>buffer := ys\<rparr>)"
proof (induction xs arbitrary: s)
  case Nil
  then show ?case by simp
next
  case (Cons x xs)
  then show ?case by (simp add: get_next_def)
qed

text \<open>
  The guard of \<open>add_input\<close>: when \<open>consumed_rows\<close> has reached the limit, the call
  returns the operator as it is.
\<close>

lemma add_input_limit_reached:
  "limit_reached s \<Longrightarrow> add_input sz s refs 0 = Inr s"
  by (simp add: add_input_def)

lemmas example_defs =
  add_input_def limit_reached_def LimitOperator_init_def example_store_def
  single_block_def three_blocks_def three_rows_def example_size_bytes_def
  ray_get_def ray_put_def slice_fn_def forwarded_rows_def forwarded_def rows_of_def
  total_input_rows_def sliced_copies_def

text \<open>
  C1 (sum of forwarded rows is min(L, total input rows)): evaluated on limit 7 and four
  bundles of one three-row block each. The third bundle is sliced to one row and
  \<open>consumed_rows\<close> stays 6, so the fourth bundle is sliced to one row as well: the run
  forwards 8 rows, where min(7, 12) is 7.
\<close>

theorem add_inputs_forwards_more_than_limit:
  "map_sum id forwarded_rows
     (add_inputs example_size_bytes (LimitOperator_init 7 None example_store)
        [single_block 0, single_block 1, single_block 2, single_block 3]) = Inr 8 \<and>
   min 7 (total_input_rows [single_block 0, single_block 1, single_block 2, single_block 3]) = 7"
  by (simp add: example_defs)

text \<open>
  C2 (the boundary block is sliced, \<open>consumed_rows\<close> becomes the limit, no further
  bundle is accepted): evaluated on limit 7 and one bundle of three three-row blocks.
  The operator forwards 3, 3 and 1 rows and drops nothing it should keep, but
  \<open>consumed_rows\<close> is 6 afterwards, the limit does not count as reached, and a further
  bundle is accepted and gives a second output bundle.
\<close>

theorem add_input_boundary_leaves_consumed_rows:
  "map_sum id (\<lambda>s. (map (\<lambda>(b, m). rows_of m) (forwarded s), consumed_rows s, limit_reached s))
     (add_inputs example_size_bytes (LimitOperator_init 7 None example_store) [three_blocks])
     = Inr ([3, 3, 1], 6, False) \<and>
   map_sum id (\<lambda>s. length (buffer s))
     (add_inputs example_size_bytes (LimitOperator_init 7 None example_store)
        [three_blocks, single_block 3]) = Inr 2"
  by (simp add: example_defs)

text \<open>
  C3 (once the forwarded rows equal the limit, every further \<open>add_input\<close> is a no-op):
  evaluated on limit 7 after one bundle of three three-row blocks. The forwarded rows are
  7, the limit, and the next \<open>add_input\<close> appends a bundle of one row to the queue and a
  metadata to the log.
\<close>

theorem add_input_after_limit_not_noop:
  "map_sum id (\<lambda>s. (forwarded_rows s, limit s, length (buffer s), length (output_metadata s)))
     (add_inputs example_size_bytes (LimitOperator_init 7 None example_store) [three_blocks])
     = Inr (7, 7, 1, 3) \<and>
   map_sum id (\<lambda>s. (forwarded_rows s, limit s, length (buffer s), length (output_metadata s)))
     (add_inputs example_size_bytes (LimitOperator_init 7 None example_store)
        [three_blocks, single_block 3]) = Inr (8, 7, 2, 4)"
  by (simp add: example_defs)

text \<open>
  C4 (at most one forwarded block of a run is a sliced copy): evaluated on limit 7 and
  four bundles of one three-row block each. Two forwarded blocks are copies made by the
  slice task, the handles 4 and 5, of one row each.
\<close>

theorem add_inputs_slices_twice:
  "map_sum id (\<lambda>s. map (\<lambda>(b, m). (b, rows_of m)) (sliced_copies example_store s))
     (add_inputs example_size_bytes (LimitOperator_init 7 None example_store)
        [single_block 0, single_block 1, single_block 2, single_block 3])
     = Inr [(4, 1), (5, 1)]"
  by (simp add: example_defs)

text \<open>
  What \<open>num_outputs_total\<close> computes after a run, in terms of the operator's own test
  \<open>_limit_reached\<close> (\<open>consumed_rows\<close> is at least the limit).
\<close>

lemma num_outputs_total_run:
  assumes "add_inputs sz (LimitOperator_init lim upstream st) bs = Inr s"
  shows "num_outputs_total s =
           (if limit_reached s then Some lim
            else (case upstream of None \<Rightarrow> None | Some u \<Rightarrow> Some (min u lim)))"
  using add_inputs_fields [OF assms]
  by (simp add: num_outputs_total_def LimitOperator_init_def)

text \<open>
  C9 (\<open>num_outputs_total\<close> is the limit once the limit has been reached): evaluated on
  limit 7 after one bundle of three three-row blocks. The operator has forwarded 7 rows,
  the limit, but the slice has left \<open>consumed_rows\<close> at 6, so \<open>num_outputs_total\<close> still
  gives the estimate of the construction: \<open>None\<close> when the upstream estimate was
  unknown, and 3 when it was 3.
\<close>

theorem num_outputs_total_after_slice:
  "map_sum id (\<lambda>s. (forwarded_rows s, limit s, num_outputs_total s))
     (add_inputs example_size_bytes (LimitOperator_init 7 None example_store) [three_blocks])
     = Inr (7, 7, None) \<and>
   map_sum id (\<lambda>s. (forwarded_rows s, limit s, num_outputs_total s))
     (add_inputs example_size_bytes (LimitOperator_init 7 (Some 3) example_store)
        [three_blocks])
     = Inr (7, 7, Some 3)"
  by (simp add: example_defs num_outputs_total_def)

text \<open>
  C10: an \<open>add_input\<close> call made while the limit is not reached, on a bundle that meets
  the preconditions (every metadata has a row count, every handle is in the store),
  returns and appends exactly one bundle to the queue, so that \<open>has_next\<close> holds. On a
  bundle of no blocks nothing else changes, the bundle appended has no blocks, and
  \<open>get_next\<close> returns it once the bundles queued before it are taken.
\<close>

theorem add_input_enqueues_one:
  assumes "\<not> limit_reached s" and "rows_known refs" and "handles_valid (object_store s) refs"
  shows "\<exists>s' out. add_input sz s refs 0 = Inr s' \<and> buffer s' = buffer s @ [out] \<and>
           has_next s' \<and> owns_blocks out = owns_blocks refs \<and>
           (blocks refs = [] \<longrightarrow>
              s' = s\<lparr>buffer := buffer s @ [out]\<rparr> \<and> blocks out = [] \<and>
              (\<exists>d. drain (length (buffer s)) s' = Inr d \<and>
                    get_next d = Inr (out, d\<lparr>buffer := []\<rparr>)))"
proof -
  from assms(2,3) obtain r where "add_input_loop sz (blocks refs) s [] [] = Inr r"
    unfolding rows_known_def handles_valid_def
    using add_input_loop_returns by blast
  then obtain s1 ob om where r: "add_input_loop sz (blocks refs) s [] [] = Inr (s1, ob, om)"
    by (cases r) auto
  let ?out = "\<lparr>blocks = zip ob om, owns_blocks = owns_blocks refs\<rparr>"
  let ?s' = "s1\<lparr>buffer := buffer s1 @ [?out]\<rparr>"
  have ret: "add_input sz s refs 0 = Inr ?s'"
    using assms(1) r by (simp add: add_input_def)
  have buf: "buffer ?s' = buffer s @ [?out]"
    using add_input_loop_fields [OF r] by simp
  have nxt: "has_next ?s'" by (simp add: has_next_def)
  have emp: "blocks refs = [] \<longrightarrow>
              ?s' = s\<lparr>buffer := buffer s @ [?out]\<rparr> \<and> blocks ?out = [] \<and>
              (\<exists>d. drain (length (buffer s)) ?s' = Inr d \<and>
                    get_next d = Inr (?out, d\<lparr>buffer := []\<rparr>))"
  proof
    assume e: "blocks refs = []"
    with r have s1: "s1 = s" and ob: "ob = []" and om: "om = []" by auto
    have d: "drain (length (buffer s)) ?s' = Inr (?s'\<lparr>buffer := [?out]\<rparr>)"
      by (rule drain_prefix) (simp add: s1)
    have g: "get_next (?s'\<lparr>buffer := [?out]\<rparr>) =
               Inr (?out, (?s'\<lparr>buffer := [?out]\<rparr>)\<lparr>buffer := []\<rparr>)"
      by (simp add: get_next_def)
    from s1 ob d g show "?s' = s\<lparr>buffer := buffer s @ [?out]\<rparr> \<and> blocks ?out = [] \<and>
              (\<exists>d. drain (length (buffer s)) ?s' = Inr d \<and>
                    get_next d = Inr (?out, d\<lparr>buffer := []\<rparr>))"
      by auto
  qed
  have own: "owns_blocks ?out = owns_blocks refs" by simp
  from ret buf nxt own emp show ?thesis by blast
qed

theorem add_input_enqueues_one_witness:
  "\<not> limit_reached (LimitOperator_init 7 None example_store) \<and>
   rows_known empty_bundle \<and>
   handles_valid example_store empty_bundle \<and>
   add_input example_size_bytes (LimitOperator_init 7 None example_store) empty_bundle 0 =
     Inr ((LimitOperator_init 7 None example_store)\<lparr>buffer := [empty_bundle]\<rparr>) \<and>
   has_next ((LimitOperator_init 7 None example_store)\<lparr>buffer := [empty_bundle]\<rparr>) \<and>
   get_next ((LimitOperator_init 7 None example_store)\<lparr>buffer := [empty_bundle]\<rparr>) =
     Inr (empty_bundle, LimitOperator_init 7 None example_store)"
proof -
  let ?s = "LimitOperator_init 7 None example_store :: nat limit_operator"
  have 1: "\<not> limit_reached ?s" by (simp add: limit_reached_def LimitOperator_init_def)
  have 2: "rows_known empty_bundle" by (simp add: rows_known_def empty_bundle_def)
  have 3: "handles_valid (object_store ?s) empty_bundle"
    by (simp add: handles_valid_def empty_bundle_def)
  have 4: "blocks empty_bundle = []" by (simp add: empty_bundle_def)
  have 5: "buffer ?s = []" by (simp add: LimitOperator_init_def)
  from add_input_enqueues_one [OF 1 2 3, of example_size_bytes] 4 5
  obtain out where o: "add_input example_size_bytes ?s empty_bundle 0 = Inr (?s\<lparr>buffer := [out]\<rparr>)"
    and b: "blocks out = []" and w: "owns_blocks out = owns_blocks empty_bundle"
    and h: "has_next (?s\<lparr>buffer := [out]\<rparr>)"
    by auto
  from b w have "out = empty_bundle" by (simp add: empty_bundle_def)
  with o h 1 2 3 show ?thesis
    by (simp add: get_next_def handles_valid_def LimitOperator_init_def)
qed

section \<open>Properties of the split coordinator's get\<close>

lemma get_pop_returns:
  assumes "get_pop s i nb = (Inr (Some blk), s')"
  shows "blocks nb \<noteq> [] \<and> blk = fst (last (blocks nb)) \<and>
         s' = s\<lparr>next_bundle :=
                 (if butlast (blocks nb) = [] then (next_bundle s)(i := None)
                  else (next_bundle s)(i \<mapsto> nb\<lparr>blocks := butlast (blocks nb)\<rparr>))\<rparr>"
  using assms by (auto simp: get_pop_def Let_def split: if_splits)

lemma get_pop_no_empty:
  assumes "\<forall>j b. next_bundle s j = Some b \<longrightarrow> blocks b \<noteq> []"
  shows "\<forall>j b. next_bundle (snd (get_pop s i nb)) j = Some b \<longrightarrow> blocks b \<noteq> []"
  using assms by (auto simp: get_pop_def Let_def split: if_splits)

lemma get_no_empty:
  assumes "\<forall>j b. next_bundle s j = Some b \<longrightarrow> blocks b \<noteq> []"
  shows "\<forall>j b. next_bundle (snd (get pull s e i)) j = Some b \<longrightarrow> blocks b \<noteq> []"
proof (cases "e = cur_epoch s")
  case False
  with assms show ?thesis by (simp add: get_def)
next
  case True
  show ?thesis
  proof (cases "next_bundle s i")
    case (Some nb)
    with True get_pop_no_empty [OF assms, of i nb] show ?thesis by (simp add: get_def)
  next
    case None
    show ?thesis
    proof (cases "output_iterator s")
      case None
      with True \<open>next_bundle s i = None\<close> assms show ?thesis by (simp add: get_def)
    next
      case (Some it)
      obtain r it' where p: "pull it i = (r, it')" by (cases "pull it i")
      show ?thesis
      proof (cases r)
        case (Inl err)
        with True \<open>next_bundle s i = None\<close> Some p assms show ?thesis by (simp add: get_def)
      next
        case (Inr nb)
        have "\<forall>j b. next_bundle (s\<lparr>output_iterator := Some it'\<rparr>) j = Some b \<longrightarrow> blocks b \<noteq> []"
          using assms by simp
        from get_pop_no_empty [OF this, of i nb] Inr True \<open>next_bundle s i = None\<close> Some p
        show ?thesis by (simp add: get_def)
      qed
    qed
  qed
qed

lemma get_returns_block:
  assumes "get pull s e i = (Inr (Some blk), s')"
  shows "\<exists>nb. obtained pull s i = Some nb \<and> blocks nb \<noteq> [] \<and> blk = fst (last (blocks nb)) \<and>
           next_bundle s' =
             (if butlast (blocks nb) = [] then (next_bundle s)(i := None)
              else (next_bundle s)(i \<mapsto> nb\<lparr>blocks := butlast (blocks nb)\<rparr>))"
proof -
  from assms have e: "e = cur_epoch s" by (auto simp: get_def split: if_splits)
  show ?thesis
  proof (cases "next_bundle s i")
    case (Some nb)
    with e assms have "get_pop s i nb = (Inr (Some blk), s')" by (simp add: get_def)
    from get_pop_returns [OF this] Some show ?thesis by (simp add: obtained_def)
  next
    case None
    with e assms obtain it where it: "output_iterator s = Some it"
      by (cases "output_iterator s") (auto simp: get_def)
    obtain r it' where p: "pull it i = (r, it')" by (cases "pull it i")
    with e assms None it obtain nb where r: "r = Inr nb"
      by (cases r) (auto simp: get_def split: if_splits)
    with e assms None it p
    have "get_pop (s\<lparr>output_iterator := Some it'\<rparr>) i nb = (Inr (Some blk), s')"
      by (simp add: get_def)
    from get_pop_returns [OF this] None it p r show ?thesis by (simp add: obtained_def)
  qed
qed

text \<open>
  C5: a \<open>get\<close> call whose \<open>epoch_id\<close> is not the coordinator's current epoch fails with
  the invalid-epoch error (\<open>ValueError\<close>) and leaves the coordinator, and with it the
  leftover map, as it was, whatever the leftover map holds.
\<close>

theorem get_stale_epoch:
  assumes "epoch_id \<noteq> cur_epoch s"
  shows "get pull s epoch_id output_split_idx = (Inl ValueError, s)"
  using assms by (simp add: get_def)

theorem get_stale_epoch_witness:
  "(0::int) \<noteq> cur_epoch stale_coordinator \<and>
   next_bundle stale_coordinator 0 = Some two_blocks \<and>
   get list_pull stale_coordinator 0 0 = (Inl ValueError, stale_coordinator)"
  using get_stale_epoch [of 0 stale_coordinator list_pull 0]
  by (simp add: stale_coordinator_def)

text \<open>
  C7: a \<open>get\<close> call that returns a block works on a bundle that has blocks, returns the
  handle of the last pair of its list, and leaves at the index the bundle without that
  pair when a pair is left and no entry otherwise, the other entries as they were.
  Whatever a \<open>get\<close> call does, a leftover map without an empty bundle stays so, and
  the map of a new coordinator is empty.
\<close>

theorem get_takes_last_block:
  "(get pull s e i = (Inr (Some blk), s') \<longrightarrow>
      (\<exists>nb. obtained pull s i = Some nb \<and> blocks nb \<noteq> [] \<and> blk = fst (last (blocks nb)) \<and>
         next_bundle s' =
           (if butlast (blocks nb) = [] then (next_bundle s)(i := None)
            else (next_bundle s)(i \<mapsto> nb\<lparr>blocks := butlast (blocks nb)\<rparr>)) \<and>
         (next_bundle s' i \<noteq> None \<longleftrightarrow> butlast (blocks nb) \<noteq> []))) \<and>
   ((\<forall>j b. next_bundle s j = Some b \<longrightarrow> blocks b \<noteq> []) \<longrightarrow>
      (\<forall>j b. next_bundle (snd (get pull s e i)) j = Some b \<longrightarrow> blocks b \<noteq> [])) \<and>
   (\<forall>j. next_bundle (SplitCoordinator_init n :: 'it split_coordinator) j = None)"
proof (intro conjI impI)
  assume "get pull s e i = (Inr (Some blk), s')"
  from get_returns_block [OF this] show
    "\<exists>nb. obtained pull s i = Some nb \<and> blocks nb \<noteq> [] \<and> blk = fst (last (blocks nb)) \<and>
         next_bundle s' =
           (if butlast (blocks nb) = [] then (next_bundle s)(i := None)
            else (next_bundle s)(i \<mapsto> nb\<lparr>blocks := butlast (blocks nb)\<rparr>)) \<and>
         (next_bundle s' i \<noteq> None \<longleftrightarrow> butlast (blocks nb) \<noteq> [])"
    by auto
next
  assume "\<forall>j b. next_bundle s j = Some b \<longrightarrow> blocks b \<noteq> []"
  from get_no_empty [OF this]
  show "\<forall>j b. next_bundle (snd (get pull s e i)) j = Some b \<longrightarrow> blocks b \<noteq> []" .
next
  show "\<forall>j. next_bundle (SplitCoordinator_init n :: 'it split_coordinator) j = None"
    by (simp add: SplitCoordinator_init_def)
qed

theorem get_takes_last_block_witness:
  "get list_pull stale_coordinator 1 0 =
     (Inr (Some 1), stale_coordinator\<lparr>next_bundle := Map.empty(0 \<mapsto> one_block)\<rparr>) \<and>
   obtained list_pull stale_coordinator 0 = Some two_blocks \<and>
   get list_pull (stale_coordinator\<lparr>next_bundle := Map.empty(0 \<mapsto> one_block)\<rparr>) 1 0 =
     (Inr (Some 0), stale_coordinator\<lparr>next_bundle := Map.empty\<rparr>)"
proof -
  let ?s1 = "stale_coordinator\<lparr>next_bundle := Map.empty(0 \<mapsto> one_block)\<rparr>"
  let ?s2 = "stale_coordinator\<lparr>next_bundle := Map.empty\<rparr>"
  have 1: "get list_pull stale_coordinator 1 0 = (Inr (Some 1), ?s1)"
    by (simp add: get_def get_pop_def stale_coordinator_def two_blocks_def one_block_def)
  have 2: "get list_pull ?s1 1 0 = (Inr (Some 0), ?s2)"
    by (simp add: get_def get_pop_def stale_coordinator_def one_block_def)
  from get_takes_last_block [of list_pull stale_coordinator 1 0 1 ?s1, THEN conjunct1, THEN mp, OF 1]
  have "obtained list_pull stale_coordinator 0 \<noteq> None" by blast
  then have "obtained list_pull stale_coordinator 0 = Some two_blocks"
    by (simp add: obtained_def stale_coordinator_def)
  with 1 2 show ?thesis by simp
qed

text \<open>
  C8: when the leftover map has no entry at the index and the pull of the runner raises,
  \<open>get\<close> returns nothing if the exception is the exhaustion signal (\<open>StopIteration\<close>) and
  raises the same exception otherwise; in both cases the leftover map is as it was, at
  every index.
\<close>

theorem get_pull_failure:
  assumes "epoch_id = cur_epoch s" and "next_bundle s i = None"
    and "output_iterator s = Some it" and "pull it i = (Inl e, it')"
  shows "get pull s epoch_id i =
           (if e = StopIteration then Inr None else Inl e, s\<lparr>output_iterator := Some it'\<rparr>) \<and>
         next_bundle (snd (get pull s epoch_id i)) = next_bundle s"
  using assms by (simp add: get_def)

theorem get_pull_failure_witness:
  "get list_pull failing_coordinator 0 0 =
     (Inl (RuntimeFailure 7), failing_coordinator\<lparr>output_iterator := Some (\<lambda>idx. [])\<rparr>) \<and>
   next_bundle (snd (get list_pull failing_coordinator 0 0)) = next_bundle failing_coordinator \<and>
   next_bundle failing_coordinator 1 = Some two_blocks"
proof -
  let ?it = "(\<lambda>idx. [])(0 := [Inl (RuntimeFailure 7)]) :: list_runner"
  have 1: "(0::int) = cur_epoch failing_coordinator"
    and 2: "next_bundle failing_coordinator 0 = None"
    and 3: "output_iterator failing_coordinator = Some ?it"
    and 5: "next_bundle failing_coordinator 1 = Some two_blocks"
    by (simp_all add: failing_coordinator_def)
  have 4: "list_pull ?it 0 = (Inl (RuntimeFailure 7), \<lambda>idx. [])"
    by (simp add: list_pull_def fun_eq_iff)
  from get_pull_failure [of 0 failing_coordinator 0 ?it list_pull "RuntimeFailure 7" "\<lambda>idx. []",
      OF 1 2 3 4] 5
  show ?thesis by simp
qed

section \<open>Properties of the barrier\<close>

lemma arrivals_same:
  "i < length ts \<Longrightarrow> arrived (pc t) = arrived (pc (ts ! i)) \<Longrightarrow> arrivals (ts[i := t]) = arrivals ts"
  unfolding arrivals_def
proof (induction ts arbitrary: i)
  case Nil then show ?case by simp
next
  case (Cons a ts) then show ?case by (cases i) auto
qed

lemma arrivals_new:
  "i < length ts \<Longrightarrow> \<not> arrived (pc (ts ! i)) \<Longrightarrow> arrived (pc t) \<Longrightarrow>
   arrivals (ts[i := t]) = Suc (arrivals ts)"
  unfolding arrivals_def
proof (induction ts arbitrary: i)
  case Nil then show ?case by simp
next
  case (Cons a ts) then show ?case by (cases i) auto
qed

lemma arrivals_all:
  "arrivals ts = length ts \<longleftrightarrow> (\<forall>i < length ts. arrived (pc (ts ! i)))"
proof -
  have "length (filter (\<lambda>t. arrived (pc t)) ts) = length ts \<longleftrightarrow> (\<forall>t \<in> set ts. arrived (pc t))"
    by (metis filter_id_conv length_filter_less less_irrefl)
  then show ?thesis by (simp add: arrivals_def all_set_conv_all_nth)
qed

lemmas inv_defs =
  inv_len_def inv_lock_def inv_epoch_def inv_inc_def inv_se_def inv_all_def inv_past_def
  inv_count_def inv_nowin_def inv_uniq_def inv_exwin_def inv_reset_def inv_build_def
  inv_builtpc_def inv_builtco_def inv_iter_def inv_done_def

lemma barrier_inv_start:
  "unfinished_clients_in_epoch c = coord_n c \<Longrightarrow>
   barrier_inv (cur_epoch c) (next_epoch c) (barrier_start c)"
  by (auto simp: barrier_inv_def inv_defs barrier_start_def arrivals_def winner_def)

lemma step_unfold:
  "i < length (threads s) \<Longrightarrow>
   barrier_step gen s i =
     (case pc (threads s ! i) of
           Acquire1 \<Rightarrow>
             if lock_owner s = None
             then s\<lparr>lock_owner := Some i, threads := (threads s)[i := (threads s ! i)\<lparr>pc := ReadEpoch\<rparr>]\<rparr>
             else s
         | ReadEpoch \<Rightarrow>
             s\<lparr>threads := (threads s)[i := (threads s ! i)\<lparr>pc := Decrement, starting_epoch := cur_epoch (coordinator s)\<rparr>]\<rparr>
         | Decrement \<Rightarrow>
             s\<lparr>coordinator := (coordinator s)\<lparr>unfinished_clients_in_epoch := unfinished_clients_in_epoch (coordinator s) - 1\<rparr>,
               threads := (threads s)[i := (threads s ! i)\<lparr>pc := Release1\<rparr>]\<rparr>
         | Release1 \<Rightarrow>
             s\<lparr>lock_owner := None, threads := (threads s)[i := (threads s ! i)\<lparr>pc := TestEpoch\<rparr>]\<rparr>
         | TestEpoch \<Rightarrow>
             s\<lparr>threads := (threads s)[i := (threads s ! i)\<lparr>pc :=
                 (if cur_epoch (coordinator s) = starting_epoch (threads s ! i) then TestCounter else Acquire2)\<rparr>]\<rparr>
         | TestCounter \<Rightarrow>
             s\<lparr>threads := (threads s)[i := (threads s ! i)\<lparr>pc :=
                 (if unfinished_clients_in_epoch (coordinator s) \<noteq> 0 then Sleep else Acquire2)\<rparr>]\<rparr>
         | Sleep \<Rightarrow>
             s\<lparr>threads := (threads s)[i := (threads s ! i)\<lparr>pc := TestEpoch\<rparr>]\<rparr>
         | Acquire2 \<Rightarrow>
             if lock_owner s = None
             then s\<lparr>lock_owner := Some i, threads := (threads s)[i := (threads s ! i)\<lparr>pc := TestAdvance\<rparr>]\<rparr>
             else s
         | TestAdvance \<Rightarrow>
             s\<lparr>threads := (threads s)[i := (threads s ! i)\<lparr>pc :=
                 (if cur_epoch (coordinator s) = starting_epoch (threads s ! i) then IncEpoch else Release2)\<rparr>]\<rparr>
         | IncEpoch \<Rightarrow>
             s\<lparr>coordinator := (coordinator s)\<lparr>cur_epoch := cur_epoch (coordinator s) + 1\<rparr>,
               threads := (threads s)[i := (threads s ! i)\<lparr>pc := ResetCounter\<rparr>]\<rparr>
         | ResetCounter \<Rightarrow>
             s\<lparr>coordinator := (coordinator s)\<lparr>unfinished_clients_in_epoch := coord_n (coordinator s)\<rparr>,
               threads := (threads s)[i := (threads s ! i)\<lparr>pc := BuildIterator\<rparr>]\<rparr>
         | BuildIterator \<Rightarrow>
             s\<lparr>coordinator := (coordinator s)\<lparr>output_iterator := Some (gen (next_epoch (coordinator s))),
                                  next_epoch := Suc (next_epoch (coordinator s))\<rparr>,
               threads := (threads s)[i := (threads s ! i)\<lparr>pc := Release2, built := True\<rparr>]\<rparr>
         | Release2 \<Rightarrow>
             s\<lparr>lock_owner := None, threads := (threads s)[i := (threads s ! i)\<lparr>pc := AssertIterator\<rparr>]\<rparr>
         | AssertIterator \<Rightarrow>
             s\<lparr>threads := (threads s)[i := (threads s ! i)\<lparr>pc :=
                 Done (if output_iterator (coordinator s) = None then Inl AssertionError
                       else Inr (starting_epoch (threads s ! i) + 1))\<rparr>]\<rparr>
         | Done r \<Rightarrow> s)"
  by (simp add: barrier_step_def Let_def)

lemma step_outside: "\<not> i < length (threads s) \<Longrightarrow> barrier_step gen s i = s"
  by (simp add: barrier_step_def)

lemma step_len:
  assumes "inv_len s" shows "inv_len (barrier_step gen s i)"
proof (cases "i < length (threads s)")
  case False then show ?thesis using assms by (simp add: step_outside)
next
  case True
  show ?thesis using assms True
    by (cases "pc (threads s ! i)") (simp_all add: step_unfold inv_len_def)
qed

lemma step_lock:
  assumes "inv_lock s" shows "inv_lock (barrier_step gen s i)"
proof (cases "i < length (threads s)")
  case False then show ?thesis using assms by (simp add: step_outside)
next
  case True
  show ?thesis using assms True
    by (cases "pc (threads s ! i)") (auto simp: step_unfold inv_lock_def nth_list_update)
qed

lemma inv_lockD:
  "inv_lock s \<Longrightarrow> j < length (threads s) \<Longrightarrow>
   holds_lock (pc (threads s ! j)) = (lock_owner s = Some j)"
  by (simp add: inv_lock_def)

lemma inv_seD:
  "inv_se e0 s \<Longrightarrow> j < length (threads s) \<Longrightarrow>
   pc (threads s ! j) \<noteq> Acquire1 \<Longrightarrow> pc (threads s ! j) \<noteq> ReadEpoch \<Longrightarrow>
   starting_epoch (threads s ! j) = e0"
  by (simp add: inv_se_def)

lemma inv_allD:
  "inv_all e0 s \<Longrightarrow> j < length (threads s) \<Longrightarrow> cur_epoch (coordinator s) = e0 + 1 \<Longrightarrow>
   arrived (pc (threads s ! j))"
  by (simp add: inv_all_def)

lemma step_inc:
  assumes "inv_inc e0 s" "inv_lock s" "inv_se e0 s"
  shows "inv_inc e0 (barrier_step gen s i)"
proof (cases "i < length (threads s)")
  case False then show ?thesis using assms by (simp add: step_outside)
next
  case True
  note Li = inv_lockD [OF assms(2) True]
  show ?thesis using assms True Li
    by (cases "pc (threads s ! i)")
       (auto simp: step_unfold inv_inc_def inv_lock_def inv_se_def nth_list_update)
qed

lemma step_epoch:
  assumes "inv_epoch e0 s" "inv_inc e0 s"
  shows "inv_epoch e0 (barrier_step gen s i)"
proof (cases "i < length (threads s)")
  case False then show ?thesis using assms by (simp add: step_outside)
next
  case True
  show ?thesis using assms True
    by (cases "pc (threads s ! i)")
       (auto simp: step_unfold inv_inc_def inv_epoch_def)
qed

lemma step_se:
  assumes "inv_se e0 s" "inv_all e0 s" "inv_epoch e0 s"
  shows "inv_se e0 (barrier_step gen s i)"
proof (cases "i < length (threads s)")
  case False then show ?thesis using assms by (simp add: step_outside)
next
  case True
  show ?thesis using assms True
    by (cases "pc (threads s ! i)")
       (auto simp: step_unfold inv_se_def inv_all_def inv_epoch_def nth_list_update)
qed

lemma step_all:
  assumes "inv_all e0 s" "inv_past s" "inv_inc e0 s"
  shows "inv_all e0 (barrier_step gen s i)"
proof (cases "i < length (threads s)")
  case False then show ?thesis using assms by (simp add: step_outside)
next
  case True
  show ?thesis using assms True
    by (cases "pc (threads s ! i)")
       (auto simp: step_unfold inv_all_def inv_past_def inv_inc_def nth_list_update)
qed

lemma step_past:
  assumes "inv_past s" "inv_all e0 s" "inv_se e0 s" "inv_epoch e0 s" "inv_count e0 k0 s"
    "inv_len s"
  shows "inv_past (barrier_step gen s i)"
proof (cases "i < length (threads s)")
  case False then show ?thesis using assms by (simp add: step_outside)
next
  case True
  have zero: "unfinished_clients_in_epoch (coordinator s) = 0 \<Longrightarrow>
              \<forall>j < length (threads s). arrived (pc (threads s ! j))"
  proof (cases "cur_epoch (coordinator s) = e0")
    case True
    assume "unfinished_clients_in_epoch (coordinator s) = 0"
    with True assms(5,6) have "arrivals (threads s) = length (threads s)"
      by (simp add: inv_count_def inv_len_def)
    then show ?thesis by (simp add: arrivals_all)
  next
    case False
    with assms(2,4) show ?thesis by (simp add: inv_all_def inv_epoch_def)
  qed
  have other: "cur_epoch (coordinator s) \<noteq> e0 \<Longrightarrow>
              \<forall>j < length (threads s). arrived (pc (threads s ! j))"
    using assms(2,4) by (simp add: inv_all_def inv_epoch_def)
  note Si = inv_seD [OF assms(3) True]
  show ?thesis using assms(1) True Si zero other
    by (cases "pc (threads s ! i)")
       (auto simp: step_unfold inv_past_def nth_list_update split: if_splits)
qed

lemma inv_nowinD:
  "inv_nowin e0 s \<Longrightarrow> j < length (threads s) \<Longrightarrow> cur_epoch (coordinator s) = e0 \<Longrightarrow>
   \<not> winner (threads s ! j)"
  by (simp add: inv_nowin_def)

lemma inv_incD:
  "inv_inc e0 s \<Longrightarrow> j < length (threads s) \<Longrightarrow> pc (threads s ! j) = IncEpoch \<Longrightarrow>
   cur_epoch (coordinator s) = e0"
  by (simp add: inv_inc_def)

lemma step_count:
  assumes "inv_count e0 k0 s" "inv_nowin e0 s" "inv_inc e0 s" "inv_all e0 s" "inv_epoch e0 s"
  shows "inv_count e0 k0 (barrier_step gen s i)"
proof (cases "i < length (threads s)")
  case False then show ?thesis using assms by (simp add: step_outside)
next
  case True
  have win: "cur_epoch (coordinator s) = e0 \<Longrightarrow> \<not> winner (threads s ! i)"
    using inv_nowinD [OF assms(2) True] by simp
  note Ii = inv_incD [OF assms(3) True]
  show ?thesis using assms(1) True win Ii
    by (cases "pc (threads s ! i)")
       (auto simp: step_unfold inv_count_def winner_def arrivals_same arrivals_new)
qed

lemma step_nowin:
  assumes "inv_nowin e0 s" "inv_inc e0 s"
  shows "inv_nowin e0 (barrier_step gen s i)"
proof (cases "i < length (threads s)")
  case False then show ?thesis using assms by (simp add: step_outside)
next
  case True
  have win: "cur_epoch (coordinator s) = e0 \<Longrightarrow> \<not> winner (threads s ! i)"
    using inv_nowinD [OF assms(1) True] by simp
  note Ii = inv_incD [OF assms(2) True]
  show ?thesis using assms(1) True win Ii
    by (cases "pc (threads s ! i)")
       (auto simp: step_unfold inv_nowin_def winner_def nth_list_update)
qed

lemma step_uniq:
  assumes "inv_uniq s" "inv_nowin e0 s" "inv_inc e0 s"
  shows "inv_uniq (barrier_step gen s i)"
proof (cases "i < length (threads s)")
  case False then show ?thesis using assms by (simp add: step_outside)
next
  case True
  have win: "cur_epoch (coordinator s) = e0 \<Longrightarrow> \<forall>j < length (threads s). \<not> winner (threads s ! j)"
    using assms(2) by (simp add: inv_nowin_def)
  note Ii = inv_incD [OF assms(3) True]
  show ?thesis using assms(1) True win Ii
    by (cases "pc (threads s ! i)")
       (auto simp: step_unfold inv_uniq_def winner_def nth_list_update)
qed

lemma step_exwin:
  assumes "inv_exwin e0 s" "inv_inc e0 s"
  shows "inv_exwin e0 (barrier_step gen s i)"
proof (cases "i < length (threads s)")
  case False then show ?thesis using assms by (simp add: step_outside)
next
  case True
  note Ii = inv_incD [OF assms(2) True]
  have keep: "\<And>t. winner (threads s ! i) \<longrightarrow> winner t \<Longrightarrow>
     cur_epoch (coordinator s) = e0 + 1 \<Longrightarrow>
     \<exists>j < length (threads s). winner ((threads s)[i := t] ! j)"
  proof -
    fix t assume t: "winner (threads s ! i) \<longrightarrow> winner t"
      and e: "cur_epoch (coordinator s) = e0 + 1"
    from assms(1) e obtain j where j: "j < length (threads s)" "winner (threads s ! j)"
      by (auto simp: inv_exwin_def)
    with t True show "\<exists>j < length (threads s). winner ((threads s)[i := t] ! j)"
      by (intro exI [of _ j]) (auto simp: nth_list_update)
  qed
  have new: "\<And>t. winner t \<Longrightarrow> \<exists>j < length (threads s). winner ((threads s)[i := t] ! j)"
    using True by (intro exI [of _ i]) simp
  show ?thesis
  proof (cases "pc (threads s ! i)")
    case IncEpoch
    with True new [of "(threads s ! i)\<lparr>pc := ResetCounter\<rparr>"] show ?thesis
      by (simp add: step_unfold inv_exwin_def winner_def)
  next
    case Acquire1
    with True assms(1) keep [of "(threads s ! i)\<lparr>pc := ReadEpoch\<rparr>"] show ?thesis
      by (auto simp: step_unfold inv_exwin_def winner_def)
  next
    case ReadEpoch
    with True keep [of "(threads s ! i)\<lparr>pc := Decrement, starting_epoch := cur_epoch (coordinator s)\<rparr>"]
    show ?thesis by (auto simp: step_unfold inv_exwin_def winner_def)
  next
    case Decrement
    with True keep [of "(threads s ! i)\<lparr>pc := Release1\<rparr>"]
    show ?thesis by (auto simp: step_unfold inv_exwin_def winner_def)
  next
    case Release1
    with True keep [of "(threads s ! i)\<lparr>pc := TestEpoch\<rparr>"]
    show ?thesis by (auto simp: step_unfold inv_exwin_def winner_def)
  next
    case TestEpoch
    with True keep [of "(threads s ! i)\<lparr>pc := TestCounter\<rparr>"]
      keep [of "(threads s ! i)\<lparr>pc := Acquire2\<rparr>"]
    show ?thesis by (auto simp: step_unfold inv_exwin_def winner_def)
  next
    case TestCounter
    with True keep [of "(threads s ! i)\<lparr>pc := Sleep\<rparr>"]
      keep [of "(threads s ! i)\<lparr>pc := Acquire2\<rparr>"]
    show ?thesis by (auto simp: step_unfold inv_exwin_def winner_def)
  next
    case Sleep
    with True keep [of "(threads s ! i)\<lparr>pc := TestEpoch\<rparr>"]
    show ?thesis by (auto simp: step_unfold inv_exwin_def winner_def)
  next
    case Acquire2
    with True assms(1) keep [of "(threads s ! i)\<lparr>pc := TestAdvance\<rparr>"]
    show ?thesis by (auto simp: step_unfold inv_exwin_def winner_def)
  next
    case TestAdvance
    with True keep [of "(threads s ! i)\<lparr>pc := IncEpoch\<rparr>"]
      keep [of "(threads s ! i)\<lparr>pc := Release2\<rparr>"]
    show ?thesis by (auto simp: step_unfold inv_exwin_def winner_def)
  next
    case ResetCounter
    with True new [of "(threads s ! i)\<lparr>pc := BuildIterator\<rparr>"]
    show ?thesis by (simp add: step_unfold inv_exwin_def winner_def)
  next
    case BuildIterator
    with True new [of "(threads s ! i)\<lparr>pc := Release2, built := True\<rparr>"]
    show ?thesis by (simp add: step_unfold inv_exwin_def winner_def)
  next
    case Release2
    with True keep [of "(threads s ! i)\<lparr>pc := AssertIterator\<rparr>"]
    show ?thesis by (auto simp: step_unfold inv_exwin_def winner_def)
  next
    case AssertIterator
    with True keep [of "(threads s ! i)\<lparr>pc := Done (if output_iterator (coordinator s) = None then Inl AssertionError else Inr (starting_epoch (threads s ! i) + 1))\<rparr>"]
    show ?thesis by (auto simp: step_unfold inv_exwin_def winner_def)
  next
    case (Done r)
    with True assms(1) show ?thesis by (simp add: step_unfold)
  qed
qed

lemma step_reset:
  assumes "inv_reset k0 s" "inv_lock s" "inv_inc e0 s" "inv_count e0 k0 s"
  shows "inv_reset k0 (barrier_step gen s i)"
proof (cases "i < length (threads s)")
  case False then show ?thesis using assms by (simp add: step_outside)
next
  case True
  note Li = inv_lockD [OF assms(2) True]
  note Ii = inv_incD [OF assms(3) True]
  have cnt: "cur_epoch (coordinator s) = e0 \<Longrightarrow> next_epoch (coordinator s) = k0"
    using assms(4) by (simp add: inv_count_def)
  show ?thesis using assms(1,2) True Li Ii cnt
    by (cases "pc (threads s ! i)")
       (auto simp: step_unfold inv_reset_def inv_lock_def nth_list_update)
qed

lemma step_build:
  assumes "inv_build k0 s" "inv_lock s" "inv_reset k0 s"
  shows "inv_build k0 (barrier_step gen s i)"
proof (cases "i < length (threads s)")
  case False then show ?thesis using assms by (simp add: step_outside)
next
  case True
  note Li = inv_lockD [OF assms(2) True]
  have Ri: "pc (threads s ! i) = ResetCounter \<Longrightarrow> next_epoch (coordinator s) = k0"
    using assms(3) True by (simp add: inv_reset_def)
  show ?thesis using assms(1,2) True Li Ri
    by (cases "pc (threads s ! i)")
       (auto simp: step_unfold inv_build_def inv_lock_def nth_list_update)
qed

lemma built_update:
  "i < length ts \<Longrightarrow> built t = built (ts ! i) \<Longrightarrow>
   (\<exists>j < length ts. built (ts[i := t] ! j)) = (\<exists>j < length ts. built (ts ! j))"
  by (metis nth_list_update_eq nth_list_update_neq)

lemma step_builtpc:
  assumes "inv_builtpc s"
  shows "inv_builtpc (barrier_step gen s i)"
proof (cases "i < length (threads s)")
  case False then show ?thesis using assms by (simp add: step_outside)
next
  case True
  have Ti: "built (threads s ! i) \<Longrightarrow> after_build (pc (threads s ! i))"
    using assms True by (simp add: inv_builtpc_def)
  show ?thesis using assms True Ti
    by (cases "pc (threads s ! i)")
       (auto simp: step_unfold inv_builtpc_def nth_list_update)
qed

lemma step_builtco:
  assumes "inv_builtco k0 s" "inv_builtpc s" "inv_build k0 s" "inv_uniq s" "inv_nowin e0 s"
    "inv_all e0 s" "inv_epoch e0 s"
  shows "inv_builtco k0 (barrier_step gen s i)"
proof (cases "i < length (threads s)")
  case False then show ?thesis using assms by (simp add: step_outside)
next
  case True
  have Bi: "pc (threads s ! i) = BuildIterator \<Longrightarrow>
      next_epoch (coordinator s) = k0 \<and>
      unfinished_clients_in_epoch (coordinator s) = coord_n (coordinator s)"
    using assms(3) True by (simp add: inv_build_def)
  have Ti: "built (threads s ! i) \<Longrightarrow> after_build (pc (threads s ! i))"
    using assms(2) True by (simp add: inv_builtpc_def)
  have none_dec: "\<not> arrived (pc (threads s ! i)) \<Longrightarrow>
      \<not> (\<exists>j < length (threads s). built (threads s ! j))"
    using assms(5,6,7) True by (auto simp: inv_nowin_def inv_all_def inv_epoch_def winner_def)
  have none_reset: "pc (threads s ! i) = ResetCounter \<Longrightarrow>
      \<not> (\<exists>j < length (threads s). built (threads s ! j))"
  proof
    assume p: "pc (threads s ! i) = ResetCounter"
      and "\<exists>j < length (threads s). built (threads s ! j)"
    then obtain j where j: "j < length (threads s)" "built (threads s ! j)" by blast
    from p have "winner (threads s ! i)" by (simp add: winner_def)
    moreover from j have "winner (threads s ! j)" by (simp add: winner_def)
    ultimately have "i = j" using assms(4) True j(1) by (auto simp: inv_uniq_def)
    with j Ti p show False by simp
  qed
  show ?thesis
  proof (cases "pc (threads s ! i)")
    case Decrement
    with True none_dec show ?thesis
      by (auto simp: step_unfold inv_builtco_def built_update)
  next
    case ResetCounter
    with True none_reset show ?thesis
      by (auto simp: step_unfold inv_builtco_def built_update)
  next
    case BuildIterator
    with True Bi show ?thesis
      by (simp add: step_unfold inv_builtco_def)
  qed (use True assms(1) in \<open>simp_all add: step_unfold inv_builtco_def built_update\<close>)
qed

lemma step_iter:
  assumes "inv_iter s" "inv_builtco k0 s" "inv_exwin e0 s" "inv_lock s" "inv_se e0 s"
    "inv_epoch e0 s"
  shows "inv_iter (barrier_step gen s i)"
proof (cases "i < length (threads s)")
  case False then show ?thesis using assms by (simp add: step_outside)
next
  case True
  have adv: "pc (threads s ! i) = TestAdvance \<Longrightarrow>
      cur_epoch (coordinator s) \<noteq> starting_epoch (threads s ! i) \<Longrightarrow>
      output_iterator (coordinator s) \<noteq> None"
  proof -
    assume p: "pc (threads s ! i) = TestAdvance"
      and ne: "cur_epoch (coordinator s) \<noteq> starting_epoch (threads s ! i)"
    from inv_seD [OF assms(5) True] p have "starting_epoch (threads s ! i) = e0" by simp
    with ne assms(6) have "cur_epoch (coordinator s) = e0 + 1" by (auto simp: inv_epoch_def)
    with assms(3) obtain j where j: "j < length (threads s)" "winner (threads s ! j)"
      by (auto simp: inv_exwin_def)
    from inv_lockD [OF assms(4) True] p have li: "lock_owner s = Some i" by simp
    show ?thesis
    proof (cases "built (threads s ! j)")
      case True
      with assms(2) j show ?thesis by (auto simp: inv_builtco_def)
    next
      case False
      with j have "holds_lock (pc (threads s ! j))" by (auto simp: winner_def)
      with inv_lockD [OF assms(4) j(1)] li have "j = i" by simp
      with j False p show ?thesis by (simp add: winner_def)
    qed
  qed
  show ?thesis using assms(1) True adv
    by (cases "pc (threads s ! i)")
       (auto simp: step_unfold inv_iter_def nth_list_update)
qed

lemma step_done:
  assumes "inv_done e0 s" "inv_iter s" "inv_se e0 s"
  shows "inv_done e0 (barrier_step gen s i)"
proof (cases "i < length (threads s)")
  case False then show ?thesis using assms by (simp add: step_outside)
next
  case True
  have Si: "pc (threads s ! i) = AssertIterator \<Longrightarrow> starting_epoch (threads s ! i) = e0"
    using inv_seD [OF assms(3) True] by simp
  have Ii: "pc (threads s ! i) = AssertIterator \<Longrightarrow> output_iterator (coordinator s) \<noteq> None"
    using assms(2) True by (simp add: inv_iter_def)
  show ?thesis using assms(1) True Si Ii
    by (cases "pc (threads s ! i)")
       (auto simp: step_unfold inv_done_def nth_list_update)
qed

lemma barrier_inv_step:
  assumes "barrier_inv e0 k0 s"
  shows "barrier_inv e0 k0 (barrier_step gen s i)"
proof -
  from assms have len: "inv_len s" and lock: "inv_lock s" and epoch: "inv_epoch e0 s"
    and inc: "inv_inc e0 s" and se: "inv_se e0 s" and all: "inv_all e0 s"
    and past: "inv_past s" and count: "inv_count e0 k0 s" and nowin: "inv_nowin e0 s"
    and uniq: "inv_uniq s" and exwin: "inv_exwin e0 s" and reset: "inv_reset k0 s"
    and build: "inv_build k0 s" and builtpc: "inv_builtpc s" and builtco: "inv_builtco k0 s"
    and iter: "inv_iter s" and fin: "inv_done e0 s"
    by (simp_all add: barrier_inv_def)
  note steps =
    step_len [OF len] step_lock [OF lock] step_epoch [OF epoch inc]
    step_inc [OF inc lock se] step_se [OF se all epoch] step_all [OF all past inc]
    step_past [OF past all se epoch count len] step_count [OF count nowin inc all epoch]
    step_nowin [OF nowin inc] step_uniq [OF uniq nowin inc] step_exwin [OF exwin inc]
    step_reset [OF reset lock inc count] step_build [OF build lock reset]
    step_builtpc [OF builtpc] step_builtco [OF builtco builtpc build uniq nowin all epoch]
    step_iter [OF iter builtco exwin lock se epoch] step_done [OF fin iter se]
  show ?thesis unfolding barrier_inv_def by (intro conjI) (rule steps)+
qed

lemma barrier_inv_run:
  "barrier_inv e0 k0 s \<Longrightarrow> barrier_inv e0 k0 (run_schedule gen s sched)"
  by (induction sched arbitrary: s) (simp_all add: barrier_inv_step)

lemma step_adv:
  assumes "inv_adv e0 s" "inv_se e0 s" "inv_epoch e0 s" "inv_nowin e0 s" "inv_inc e0 s"
  shows "inv_adv e0 (barrier_step gen s i)"
proof (cases "i < length (threads s)")
  case False then show ?thesis using assms by (simp add: step_outside)
next
  case True
  have E: "cur_epoch (coordinator s) \<noteq> e0 \<Longrightarrow> cur_epoch (coordinator s) = e0 + 1"
    using assms(3) by (auto simp: inv_epoch_def)
  show ?thesis
  proof (cases "pc (threads s ! i)")
    case TestAdvance
    with inv_seD [OF assms(2) True] have "starting_epoch (threads s ! i) = e0" by simp
    with TestAdvance True assms(1) E show ?thesis
      by (auto simp: step_unfold inv_adv_def nth_list_update)
  next
    case BuildIterator
    with inv_nowinD [OF assms(4) True] have "cur_epoch (coordinator s) \<noteq> e0"
      by (auto simp: winner_def)
    with BuildIterator True assms(1) E show ?thesis
      by (auto simp: step_unfold inv_adv_def nth_list_update)
  next
    case IncEpoch
    with inv_incD [OF assms(5) True] have c: "cur_epoch (coordinator s) = e0" by simp
    with assms(1) have "\<forall>j < length (threads s). \<not> after_build (pc (threads s ! j))"
      by (auto simp: inv_adv_def)
    with IncEpoch True c show ?thesis
      by (auto simp: step_unfold inv_adv_def nth_list_update)
  next
    case Release2
    with assms(1) True have "cur_epoch (coordinator s) = e0 + 1" by (simp add: inv_adv_def)
    with Release2 True assms(1) show ?thesis
      by (auto simp: step_unfold inv_adv_def nth_list_update)
  next
    case AssertIterator
    with assms(1) True have "cur_epoch (coordinator s) = e0 + 1" by (simp add: inv_adv_def)
    with AssertIterator True assms(1) show ?thesis
      by (auto simp: step_unfold inv_adv_def nth_list_update)
  qed (use True assms(1) in \<open>auto simp: step_unfold inv_adv_def nth_list_update\<close>)
qed

lemma step_owner:
  assumes "inv_owner s"
  shows "inv_owner (barrier_step gen s i)"
proof (cases "i < length (threads s)")
  case False then show ?thesis using assms by (simp add: step_outside)
next
  case True
  show ?thesis using assms True
    by (cases "pc (threads s ! i)") (auto simp: step_unfold inv_owner_def)
qed

lemma step_coord_n:
  "coord_n (coordinator (barrier_step gen s i)) = coord_n (coordinator s)"
proof (cases "i < length (threads s)")
  case False then show ?thesis by (simp add: step_outside)
next
  case True
  then show ?thesis
    by (cases "pc (threads s ! i)") (simp_all add: step_unfold)
qed

lemma run_coord_n:
  "coord_n (coordinator (run_schedule gen s sched)) = coord_n (coordinator s)"
  by (induction sched arbitrary: s) (simp_all add: step_coord_n)

lemma inv_adv_run:
  "barrier_inv e0 k0 s \<Longrightarrow> inv_adv e0 s \<Longrightarrow> inv_adv e0 (run_schedule gen s sched)"
proof (induction sched arbitrary: s)
  case Nil then show ?case by simp
next
  case (Cons i sched)
  from Cons.prems have "inv_adv e0 (barrier_step gen s i)"
    by (intro step_adv) (simp_all add: barrier_inv_def)
  with Cons.prems Cons.IH [of "barrier_step gen s i"] show ?case
    by (simp add: barrier_inv_step)
qed

lemma inv_adv_start: "inv_adv e0 (barrier_start c)"
  by (simp add: inv_adv_def barrier_start_def)

lemma barrier_safe:
  assumes "unfinished_clients_in_epoch c = coord_n c"
  shows "let s = run_schedule gen (barrier_start c) sched; ts = threads s in
     length ts = nat (coord_n c) \<and>
     (\<forall>i < length ts. \<forall>r. pc (ts ! i) = Done r \<longrightarrow> r = Inr (cur_epoch c + 1)) \<and>
     ((\<exists>i < length ts. past_loop (pc (ts ! i))) \<longrightarrow>
        (\<forall>j < length ts. arrived (pc (ts ! j)))) \<and>
     (\<forall>i < length ts. \<forall>j < length ts. built (ts ! i) \<and> built (ts ! j) \<longrightarrow> i = j) \<and>
     (ts \<noteq> [] \<and> (\<forall>i < length ts. \<exists>r. pc (ts ! i) = Done r) \<longrightarrow>
        (\<exists>i < length ts. built (ts ! i)) \<and>
        cur_epoch (coordinator s) = cur_epoch c + 1 \<and>
        unfinished_clients_in_epoch (coordinator s) = coord_n c \<and>
        next_epoch (coordinator s) = Suc (next_epoch c) \<and>
        output_iterator (coordinator s) \<noteq> None)"
proof -
  define s where "s = run_schedule gen (barrier_start c) sched"
  define ts where "ts = threads s"
  have inv: "barrier_inv (cur_epoch c) (next_epoch c) s"
    unfolding s_def by (rule barrier_inv_run [OF barrier_inv_start [OF assms]])
  have adv: "inv_adv (cur_epoch c) s"
    unfolding s_def
    by (rule inv_adv_run [OF barrier_inv_start [OF assms] inv_adv_start])
  have n: "coord_n (coordinator s) = coord_n c"
    unfolding s_def by (simp add: run_coord_n barrier_start_def)
  from inv n have 1: "length ts = nat (coord_n c)"
    by (simp add: barrier_inv_def inv_len_def ts_def)
  from inv have 2: "\<forall>i < length ts. \<forall>r. pc (ts ! i) = Done r \<longrightarrow> r = Inr (cur_epoch c + 1)"
    by (simp add: barrier_inv_def inv_done_def ts_def)
  from inv have 3: "(\<exists>i < length ts. past_loop (pc (ts ! i))) \<longrightarrow>
        (\<forall>j < length ts. arrived (pc (ts ! j)))"
    by (simp add: barrier_inv_def inv_past_def ts_def)
  from inv have "inv_uniq s" by (simp add: barrier_inv_def)
  then have 4: "\<forall>i < length ts. \<forall>j < length ts. built (ts ! i) \<and> built (ts ! j) \<longrightarrow> i = j"
    by (simp add: inv_uniq_def winner_def ts_def)
  have 5: "ts \<noteq> [] \<and> (\<forall>i < length ts. \<exists>r. pc (ts ! i) = Done r) \<longrightarrow>
        (\<exists>i < length ts. built (ts ! i)) \<and>
        cur_epoch (coordinator s) = cur_epoch c + 1 \<and>
        unfinished_clients_in_epoch (coordinator s) = coord_n c \<and>
        next_epoch (coordinator s) = Suc (next_epoch c) \<and>
        output_iterator (coordinator s) \<noteq> None"
  proof
    assume a: "ts \<noteq> [] \<and> (\<forall>i < length ts. \<exists>r. pc (ts ! i) = Done r)"
    then have "0 < length ts" and "\<exists>r. pc (ts ! 0) = Done r" by auto
    with adv have e: "cur_epoch (coordinator s) = cur_epoch c + 1"
      by (auto simp: inv_adv_def ts_def)
    from inv have "inv_exwin (cur_epoch c) s" by (simp add: barrier_inv_def)
    with e obtain j where j: "j < length ts" "winner (ts ! j)"
      by (auto simp: inv_exwin_def ts_def)
    from a j(1) obtain r where "pc (ts ! j) = Done r" by blast
    with j(2) have b: "built (ts ! j)" by (simp add: winner_def)
    from inv have "inv_builtco (next_epoch c) s" by (simp add: barrier_inv_def)
    with b j(1) have "output_iterator (coordinator s) \<noteq> None \<and>
        next_epoch (coordinator s) = Suc (next_epoch c) \<and>
        unfinished_clients_in_epoch (coordinator s) = coord_n (coordinator s)"
      unfolding inv_builtco_def ts_def by blast
    with e n b j(1) show "(\<exists>i < length ts. built (ts ! i)) \<and>
        cur_epoch (coordinator s) = cur_epoch c + 1 \<and>
        unfinished_clients_in_epoch (coordinator s) = coord_n c \<and>
        next_epoch (coordinator s) = Suc (next_epoch c) \<and>
        output_iterator (coordinator s) \<noteq> None"
      by auto
  qed
  from 1 2 3 4 5 show ?thesis unfolding Let_def s_def [symmetric] ts_def [symmetric] by blast
qed

lemma rank_update:
  "i < length ts \<Longrightarrow> rank_pc (pc t) < rank_pc (pc (ts ! i)) \<Longrightarrow>
   sum_list (map (\<lambda>t. rank_pc (pc t)) (ts[i := t])) < sum_list (map (\<lambda>t. rank_pc (pc t)) ts)"
proof (induction ts arbitrary: i)
  case Nil then show ?case by simp
next
  case (Cons a ts) then show ?case by (cases i) auto
qed

lemma rank_zero:
  "rank s = 0 \<longleftrightarrow> (\<forall>i < length (threads s). \<exists>r. pc (threads s ! i) = Done r)"
proof -
  have "rank_pc p = 0 \<longleftrightarrow> (\<exists>r. p = Done r)" for p by (cases p) simp_all
  then show ?thesis by (simp add: rank_def all_set_conv_all_nth)
qed

lemma step_rank_lock:
  assumes "i < length (threads s)" "holds_lock (pc (threads s ! i))"
  shows "rank (barrier_step gen s i) < rank s"
  using assms
  by (cases "pc (threads s ! i)") (simp_all add: step_unfold rank_def rank_update)

lemma step_rank_free:
  assumes "i < length (threads s)" "lock_owner s = None"
    "pc (threads s ! i) = Acquire1 \<or> pc (threads s ! i) = Acquire2 \<or>
     pc (threads s ! i) = TestEpoch \<or> pc (threads s ! i) = Sleep \<or>
     pc (threads s ! i) = AssertIterator"
  shows "rank (barrier_step gen s i) < rank s"
  using assms
  by (cases "pc (threads s ! i)") (simp_all add: step_unfold rank_def rank_update)

lemma step_rank_zero:
  assumes "i < length (threads s)" "pc (threads s ! i) = TestCounter"
    "unfinished_clients_in_epoch (coordinator s) = 0"
  shows "rank (barrier_step gen s i) < rank s"
  using assms by (simp add: step_unfold rank_def rank_update)

lemma step_rank_spin:
  assumes "i < length (threads s)" "pc (threads s ! i) = TestCounter"
    "unfinished_clients_in_epoch (coordinator s) \<noteq> 0"
    "cur_epoch (coordinator s) \<noteq> starting_epoch (threads s ! i)"
  shows "rank (run_schedule gen s [i, i, i]) < rank s"
  using assms by (simp add: step_unfold rank_def rank_update)

lemma run_append:
  "run_schedule gen s (a @ b) = run_schedule gen (run_schedule gen s a) b"
  by (induction a arbitrary: s) simp_all

lemma inv_owner_run: "inv_owner s \<Longrightarrow> inv_owner (run_schedule gen s sched)"
  by (induction sched arbitrary: s) (simp_all add: step_owner)

lemma inv_owner_start: "inv_owner (barrier_start c)"
  by (simp add: inv_owner_def barrier_start_def)

lemma free_pcs:
  assumes "\<not> holds_lock p"
    "\<not> (p = Acquire1 \<or> p = Acquire2 \<or> p = TestEpoch \<or> p = Sleep \<or> p = AssertIterator)"
  shows "p = TestCounter \<or> (\<exists>r. p = Done r)"
  using assms by (cases p) simp_all

lemma barrier_progress:
  assumes inv: "barrier_inv e0 k0 s" and own: "inv_owner s" and pos: "0 < rank s"
  shows "\<exists>sched. rank (run_schedule gen s sched) < rank s"
proof (cases "lock_owner s")
  case (Some j)
  with own have j: "j < length (threads s)" by (simp add: inv_owner_def)
  from inv have "inv_lock s" by (simp add: barrier_inv_def)
  with j Some have "holds_lock (pc (threads s ! j))" by (simp add: inv_lock_def)
  from step_rank_lock [OF j this, of gen]
  have "rank (run_schedule gen s [j]) < rank s" by simp
  then show ?thesis ..
next
  case None
  from inv have lock: "inv_lock s" by (simp add: barrier_inv_def)
  have nolock: "\<not> holds_lock (pc (threads s ! i))" if "i < length (threads s)" for i
    using lock None that by (simp add: inv_lock_def)
  show ?thesis
  proof (cases "\<exists>i < length (threads s).
      pc (threads s ! i) = Acquire1 \<or> pc (threads s ! i) = Acquire2 \<or>
      pc (threads s ! i) = TestEpoch \<or> pc (threads s ! i) = Sleep \<or>
      pc (threads s ! i) = AssertIterator")
    case True
    then obtain i where i: "i < length (threads s)"
      "pc (threads s ! i) = Acquire1 \<or> pc (threads s ! i) = Acquire2 \<or>
       pc (threads s ! i) = TestEpoch \<or> pc (threads s ! i) = Sleep \<or>
       pc (threads s ! i) = AssertIterator" by blast
    from step_rank_free [OF i(1) None i(2), of gen]
    have "rank (run_schedule gen s [i]) < rank s" by simp
    then show ?thesis ..
  next
    case False
    have shape: "pc (threads s ! i) = TestCounter \<or> (\<exists>r. pc (threads s ! i) = Done r)"
      if "i < length (threads s)" for i
      using free_pcs [OF nolock [OF that]] False that by blast
    from pos have "\<not> (\<forall>i < length (threads s). \<exists>r. pc (threads s ! i) = Done r)"
      by (simp add: rank_zero [symmetric])
    then obtain i where i: "i < length (threads s)" "\<not> (\<exists>r. pc (threads s ! i) = Done r)"
      by blast
    with shape have p: "pc (threads s ! i) = TestCounter" by blast
    show ?thesis
    proof (cases "unfinished_clients_in_epoch (coordinator s) = 0")
      case True
      from step_rank_zero [OF i(1) p True, of gen]
      have "rank (run_schedule gen s [i]) < rank s" by simp
      then show ?thesis ..
    next
      case nz: False
      have arr: "\<forall>j < length (threads s). arrived (pc (threads s ! j))"
      proof (intro allI impI)
        fix j assume "j < length (threads s)"
        from shape [OF this] show "arrived (pc (threads s ! j))" by auto
      qed
      then have full: "arrivals (threads s) = length (threads s)" by (simp add: arrivals_all)
      from inv have len: "inv_len s" and cnt: "inv_count e0 k0 s" and ep: "inv_epoch e0 s"
        and se: "inv_se e0 s" by (simp_all add: barrier_inv_def)
      from i(1) len have "0 < coord_n (coordinator s)" by (simp add: inv_len_def)
      with full len have "coord_n (coordinator s) - int (arrivals (threads s)) = 0"
        by (simp add: inv_len_def)
      with cnt nz have "cur_epoch (coordinator s) \<noteq> e0" by (auto simp: inv_count_def)
      moreover from inv_seD [OF se i(1)] p have "starting_epoch (threads s ! i) = e0" by simp
      ultimately have "cur_epoch (coordinator s) \<noteq> starting_epoch (threads s ! i)" by simp
      from step_rank_spin [OF i(1) p nz this, of gen] show ?thesis ..
    qed
  qed
qed

lemma barrier_can_finish:
  assumes "barrier_inv e0 k0 s" "inv_owner s"
  shows "\<exists>sched. rank (run_schedule gen s sched) = 0"
  using assms
proof (induction "rank s" arbitrary: s rule: less_induct)
  case less
  show ?case
  proof (cases "rank s = 0")
    case True
    then have "rank (run_schedule gen s []) = 0" by simp
    then show ?thesis ..
  next
    case False
    with barrier_progress [OF less.prems, of gen]
    obtain a where a: "rank (run_schedule gen s a) < rank s" by auto
    from less.hyps [OF a barrier_inv_run [OF less.prems(1)] inv_owner_run [OF less.prems(2)]]
    obtain b where "rank (run_schedule gen (run_schedule gen s a) b) = 0" by blast
    then have "rank (run_schedule gen s (a @ b)) = 0" by (simp add: run_append)
    then show ?thesis ..
  qed
qed

text \<open>
  C6: when all \<open>_n\<close> clients call \<open>start_epoch\<close> from the same epoch, then after any
  steps of the threads, in any order: there are \<open>_n\<close> calls; every call that has
  returned has returned the starting epoch plus one (none has raised); when a call has
  left the waiting loop, every call has arrived (decremented the counter); at most one
  call has made a runner; once all calls have returned, one call has made the runner, the
  epoch is the starting epoch plus one, the counter is \<open>_n\<close> again and the generator has
  yielded once; and the steps can always be continued so that all calls return.
\<close>

theorem barrier_all_clients:
  assumes "unfinished_clients_in_epoch c = coord_n c"
  shows "let s = run_schedule gen (barrier_start c) sched; ts = threads s in
     length ts = nat (coord_n c) \<and>
     (\<forall>i < length ts. \<forall>r. pc (ts ! i) = Done r \<longrightarrow> r = Inr (cur_epoch c + 1)) \<and>
     ((\<exists>i < length ts. past_loop (pc (ts ! i))) \<longrightarrow>
        (\<forall>j < length ts. arrived (pc (ts ! j)))) \<and>
     (\<forall>i < length ts. \<forall>j < length ts. built (ts ! i) \<and> built (ts ! j) \<longrightarrow> i = j) \<and>
     (ts \<noteq> [] \<and> (\<forall>i < length ts. \<exists>r. pc (ts ! i) = Done r) \<longrightarrow>
        (\<exists>i < length ts. built (ts ! i)) \<and>
        cur_epoch (coordinator s) = cur_epoch c + 1 \<and>
        unfinished_clients_in_epoch (coordinator s) = coord_n c \<and>
        next_epoch (coordinator s) = Suc (next_epoch c) \<and>
        output_iterator (coordinator s) \<noteq> None) \<and>
     (\<exists>rest. \<forall>i < length (threads (run_schedule gen s rest)).
        \<exists>r. pc (threads (run_schedule gen s rest) ! i) = Done r)"
proof -
  have inv: "barrier_inv (cur_epoch c) (next_epoch c) (run_schedule gen (barrier_start c) sched)"
    by (rule barrier_inv_run [OF barrier_inv_start [OF assms]])
  have own: "inv_owner (run_schedule gen (barrier_start c) sched)"
    by (rule inv_owner_run [OF inv_owner_start])
  from barrier_can_finish [OF inv own, of gen]
  have fin: "\<exists>rest. \<forall>i < length (threads (run_schedule gen
            (run_schedule gen (barrier_start c) sched) rest)).
          \<exists>r. pc (threads (run_schedule gen
            (run_schedule gen (barrier_start c) sched) rest) ! i) = Done r"
    by (simp add: rank_zero)
  note safe = barrier_safe [OF assms, of gen sched, unfolded Let_def]
  from safe fin show ?thesis
    unfolding Let_def
    apply (elim conjE)
    apply (intro conjI)
         apply assumption+
    done
qed

theorem barrier_all_clients_witness:
  "unfinished_clients_in_epoch (SplitCoordinator_init 2 :: nat split_coordinator) =
     coord_n (SplitCoordinator_init 2 :: nat split_coordinator) \<and>
   length (threads (run_schedule (\<lambda>k. k) (barrier_start (SplitCoordinator_init 2))
     two_client_schedule)) = 2 \<and>
   map (\<lambda>t. (pc t, built t))
     (threads (run_schedule (\<lambda>k. k) (barrier_start (SplitCoordinator_init 2))
        two_client_schedule)) = [(Done (Inr 0), True), (Done (Inr 0), False)] \<and>
   cur_epoch (coordinator (run_schedule (\<lambda>k. k) (barrier_start (SplitCoordinator_init 2))
     two_client_schedule)) = 0 \<and>
   unfinished_clients_in_epoch (coordinator (run_schedule (\<lambda>k. k)
     (barrier_start (SplitCoordinator_init 2)) two_client_schedule)) = 2 \<and>
   next_epoch (coordinator (run_schedule (\<lambda>k. k) (barrier_start (SplitCoordinator_init 2))
     two_client_schedule)) = 1"
proof -
  let ?c = "SplitCoordinator_init 2 :: nat split_coordinator"
  let ?s = "run_schedule (\<lambda>k. k) (barrier_start ?c) two_client_schedule"
  have h: "unfinished_clients_in_epoch ?c = coord_n ?c"
    by (simp add: SplitCoordinator_init_def)
  have ts: "map (\<lambda>t. (pc t, built t)) (threads ?s) = [(Done (Inr 0), True), (Done (Inr 0), False)]"
    by (simp add: two_client_schedule_def barrier_start_def SplitCoordinator_init_def
          barrier_step_def numeral_2_eq_2)
  then have d: "threads ?s \<noteq> [] \<and> (\<forall>i < length (threads ?s). \<exists>r. pc (threads ?s ! i) = Done r)"
    by (auto simp: less_Suc_eq map_eq_Cons_conv)
  from barrier_all_clients [OF h, of "\<lambda>k. k" two_client_schedule] d
  have "length (threads ?s) = 2 \<and> cur_epoch (coordinator ?s) = 0 \<and>
        unfinished_clients_in_epoch (coordinator ?s) = 2 \<and> next_epoch (coordinator ?s) = 1"
    unfolding Let_def by (simp add: SplitCoordinator_init_def)
  with h ts show ?thesis by simp
qed

end
